theory Spec2Isabelle
  imports Complex_Main "HOL-Library.AList" "HOL-Library.Word"
begin

section \<open>Attention tracking (pi_client.py, utensil_detector.py)\<close>

text \<open>
  Both programs run the same per-frame tracking code inside their main loop. It sees the
  utensil detections of the frame (in pi_client.py the list \<^verbatim>\<open>results['utensils']\<close>
  that the server has filtered by \<^verbatim>\<open>UTENSIL_CLASSES\<close>, in utensil_detector.py the boxes
  that pass the same filter) and the person detections (\<^verbatim>\<open>results['hands']\<close>).
  Timestamps come from \<^verbatim>\<open>time.time()\<close> and are doubles; a double is modelled by the
  real number it stands for, and the subtraction of two of them rounds (see \<open>time_diff\<close>).
  The two dictionaries \<^verbatim>\<open>utensil_first_seen\<close> and \<^verbatim>\<open>last_alert_time\<close> are
  association lists with dictionary operations (lookup \<^const>\<open>map_of\<close>, store
  \<^const>\<open>AList.update\<close>, \<^verbatim>\<open>del\<close> as \<^const>\<open>AList.delete\<close>), which keep Python's
  insertion order of keys.
\<close>

datatype state_label = NOTHING | UNATTENDED | ATTENDED

record detection =
  class_name :: string
  confidence :: real
  bbox :: "int \<times> int \<times> int \<times> int"

record results =
  utensils :: "detection list"
  hands :: "detection list"

record tracker =
  utensil_first_seen :: "(string \<times> real) list"
  last_alert_time :: "(string \<times> real) list"

definition UNATTENDED_THRESHOLD :: real where
  "UNATTENDED_THRESHOLD = 2"

definition ALERT_COOLDOWN :: real where
  "ALERT_COOLDOWN = 5"

subsection \<open>Double-precision subtraction\<close>

text \<open>
  Python's \<^verbatim>\<open>a - b\<close> on two floats is the exact difference rounded to the nearest
  double, a tie going to the neighbour with an even significand. A double has 53
  significant bits and its exponent is not below -1022. Differences too large for a
  double do not arise between clock readings and are not modelled. The comparisons
  \<^verbatim>\<open>>=\<close> with 2.0 and 5.0 are exact.
\<close>

definition round_half_even :: "real \<Rightarrow> int" where
  "round_half_even x =
     (let f = \<lfloor>x\<rfloor>; d = x - of_int f
      in if d < 1 / 2 then f else if 1 / 2 < d then f + 1 else if even f then f else f + 1)"

text \<open>The binary exponent of a positive number, and the spacing of the doubles there.\<close>

definition exponent :: "real \<Rightarrow> int" where
  "exponent x = max \<lfloor>log 2 x\<rfloor> (- 1022)"

definition ulp :: "int \<Rightarrow> real" where
  "ulp e = 2 powr (of_int e - 52)"

definition round_positive :: "real \<Rightarrow> real" where
  "round_positive x = ulp (exponent x) * of_int (round_half_even (x / ulp (exponent x)))"

definition round_double :: "real \<Rightarrow> real" where
  "round_double x =
     (if x = 0 then 0 else if 0 < x then round_positive x else - round_positive (- x))"

text \<open>The reals that are doubles, and \<^verbatim>\<open>a - b\<close> as the programs compute it.\<close>

definition is_double :: "real \<Rightarrow> bool" where
  "is_double x \<longleftrightarrow> round_double x = x"

definition time_diff :: "real \<Rightarrow> real \<Rightarrow> real" where
  "time_diff a b = round_double (a - b)"

text \<open>\<^verbatim>\<open>utensil_count[class_name] = utensil_count.get(class_name, 0) + 1\<close>\<close>

definition count_detection :: "detection \<Rightarrow> (string \<times> nat) list \<Rightarrow> (string \<times> nat) list" where
  "count_detection d uc =
     AList.update (class_name d)
       ((case map_of uc (class_name d) of None \<Rightarrow> 0 | Some c \<Rightarrow> c) + 1) uc"

definition utensil_count :: "results \<Rightarrow> (string \<times> nat) list" where
  "utensil_count rs = fold count_detection (utensils rs) []"

definition hand_count :: "results \<Rightarrow> nat" where
  "hand_count rs = length (hands rs)"

text \<open>The \<^verbatim>\<open>if/elif/elif/else\<close> chain that picks the state of the frame.\<close>

definition determine_state :: "results \<Rightarrow> state_label" where
  "determine_state rs =
     (let has_utensils = length (utensil_count rs) > 0;
          has_hands = hand_count rs > 0
      in if \<not> has_utensils \<and> \<not> has_hands then NOTHING
         else if has_utensils \<and> \<not> has_hands then UNATTENDED
         else if has_utensils \<and> has_hands then ATTENDED
         else NOTHING)"

text \<open>
  One iteration of \<^verbatim>\<open>for utensil_type in utensil_count.keys()\<close>. The second
  component collects the alerts that the iteration speaks, in order.
\<close>

definition track_utensil ::
  "state_label \<Rightarrow> real \<Rightarrow> string \<Rightarrow> tracker \<times> string list \<Rightarrow> tracker \<times> string list" where
  "track_utensil state current_time utensil_type acc =
     (let tr = fst acc; alerts = snd acc in
      if state = UNATTENDED then
        (case map_of (utensil_first_seen tr) utensil_type of
           None \<Rightarrow>
             (tr\<lparr>utensil_first_seen :=
                   AList.update utensil_type current_time (utensil_first_seen tr)\<rparr>, alerts)
         | Some first_seen \<Rightarrow>
             (let unattended_duration = time_diff current_time first_seen in
              if unattended_duration \<ge> UNATTENDED_THRESHOLD then
                (if (case map_of (last_alert_time tr) utensil_type of
                       None \<Rightarrow> True
                     | Some last_alert \<Rightarrow>
                         time_diff current_time last_alert \<ge> ALERT_COOLDOWN)
                 then (tr\<lparr>last_alert_time :=
                             AList.update utensil_type current_time (last_alert_time tr)\<rparr>,
                       alerts @ [utensil_type])
                 else (tr, alerts))
              else (tr, alerts)))
      else
        (if map_of (utensil_first_seen tr) utensil_type \<noteq> None
         then (tr\<lparr>utensil_first_seen := AList.delete utensil_type (utensil_first_seen tr)\<rparr>,
               alerts)
         else (tr, alerts)))"

text \<open>\<^verbatim>\<open>del utensil_first_seen[utensil_type]\<close> for a key taken from the dictionary.\<close>

definition remove_utensil :: "string \<Rightarrow> tracker \<Rightarrow> tracker" where
  "remove_utensil utensil_type tr =
     tr\<lparr>utensil_first_seen := AList.delete utensil_type (utensil_first_seen tr)\<rparr>"

text \<open>The tracking part of one pass through the main loop.\<close>

definition track_tick :: "real \<Rightarrow> results \<Rightarrow> tracker \<Rightarrow> tracker \<times> string list" where
  "track_tick current_time rs tr =
     (let uc = utensil_count rs;
          state = determine_state rs;
          acc = fold (track_utensil state current_time) (map fst uc) (tr, []);
          utensils_to_remove =
            filter (\<lambda>u. map_of uc u = None) (map fst (utensil_first_seen (fst acc)))
      in (fold remove_utensil utensils_to_remove (fst acc), snd acc))"

text \<open>Both dictionaries are empty when the main loop starts.\<close>

definition initial_tracker :: tracker where
  "initial_tracker = \<lparr>utensil_first_seen = [], last_alert_time = []\<rparr>"

text \<open>
  A run of the main loop over a list of frames, each with the clock reading taken
  for it. The result is the list of alerts with the time of each, and the
  dictionaries after the last frame.
\<close>

fun run :: "tracker \<Rightarrow> (real \<times> results) list \<Rightarrow> (real \<times> string) list \<times> tracker" where
  "run tr [] = ([], tr)"
| "run tr (tick # ticks) =
     (let step = track_tick (fst tick) (snd tick) tr;
          rest = run (fst step) ticks
      in (map (Pair (fst tick)) (snd step) @ fst rest, snd rest))"

text \<open>
  The condition under which the loop body alerts for a utensil type, read off the
  nested \<^verbatim>\<open>if\<close>s of the loop body; the lemmas below relate it to \<^const>\<open>track_tick\<close>.
\<close>

definition should_alert :: "state_label \<Rightarrow> real \<Rightarrow> tracker \<Rightarrow> string \<Rightarrow> bool" where
  "should_alert state current_time tr utensil_type \<longleftrightarrow>
     state = UNATTENDED \<and>
     (case map_of (utensil_first_seen tr) utensil_type of
        None \<Rightarrow> False
      | Some first_seen \<Rightarrow> time_diff current_time first_seen \<ge> UNATTENDED_THRESHOLD) \<and>
     (case map_of (last_alert_time tr) utensil_type of
        None \<Rightarrow> True
      | Some last_alert \<Rightarrow> time_diff current_time last_alert \<ge> ALERT_COOLDOWN)"


subsection \<open>The frames of the fork scenario\<close>

text \<open>
  A fork alone in the frame, and a fork with a person beside it, as the server reports
  them; the clock readings 0, 1.9, 2.0, 2.1 and 2.2 of the scenario.
\<close>

definition fork :: detection where
  "fork = \<lparr>class_name = ''fork'', confidence = 9 / 10, bbox = (100, 120, 180, 300)\<rparr>"

definition person :: detection where
  "person = \<lparr>class_name = ''person'', confidence = 8 / 10, bbox = (0, 0, 320, 480)\<rparr>"

definition fork_alone :: results where
  "fork_alone = \<lparr>utensils = [fork], hands = []\<rparr>"

definition fork_with_person :: results where
  "fork_with_person = \<lparr>utensils = [fork], hands = [person]\<rparr>"

definition scenario_ticks :: "(real \<times> results) list" where
  "scenario_ticks =
     [(0, fork_alone), (19 / 10, fork_alone), (2, fork_alone),
      (21 / 10, fork_with_person), (11 / 5, fork_alone)]"




section \<open>Frame transport (pi_client.py, server_mac.py)\<close>

text \<open>
  Bytes are 8-bit words and a \<^verbatim>\<open>bytes\<close> object is a list of them. An exception is a
  value of type \<open>error\<close>. A call that never returns (a \<^verbatim>\<open>recv\<close> that blocks for ever, a
  loop that never ends) has the value \<^const>\<open>None\<close>.
\<close>

type_synonym byte = "8 word"

datatype error = StructError | ConnectionResetError | BrokenPipeError | ProcessError

text \<open>
  \<^verbatim>\<open>struct.pack("Q", n)\<close> and \<^verbatim>\<open>struct.unpack("Q", b)[0]\<close>: an unsigned 64-bit
  integer in 8 bytes, in the byte order of the machine; both machines the programs name
  (a Raspberry Pi and a Mac) are little-endian. \<^verbatim>\<open>pack\<close> raises \<^verbatim>\<open>struct.error\<close> for
  a number that does not fit, \<^verbatim>\<open>unpack\<close> for a buffer that is not 8 bytes long.
\<close>

fun le_bytes :: "nat \<Rightarrow> nat \<Rightarrow> byte list" where
  "le_bytes 0 n = []"
| "le_bytes (Suc k) n = word_of_nat (n mod 256) # le_bytes k (n div 256)"

fun le_value :: "byte list \<Rightarrow> nat" where
  "le_value [] = 0"
| "le_value (b # bs) = unat b + 256 * le_value bs"

definition payload_size :: nat where
  "payload_size = 8"

definition pack_Q :: "nat \<Rightarrow> error + byte list" where
  "pack_Q n = (if n < 2 ^ 64 then Inr (le_bytes 8 n) else Inl StructError)"

definition unpack_Q :: "byte list \<Rightarrow> error + nat" where
  "unpack_Q b = (if length b = 8 then Inr (le_value b) else Inl StructError)"

text \<open>
  The sender's side, the same in both programs:
  \<^verbatim>\<open>message_size = struct.pack("Q", len(data))\<close>, then
  \<^verbatim>\<open>sendall(message_size + data)\<close>.
\<close>

definition frame_message :: "byte list \<Rightarrow> error + byte list" where
  "frame_message data =
     (case pack_Q (length data) of
        Inl e \<Rightarrow> Inl e
      | Inr message_size \<Rightarrow> Inr (message_size @ data))"

text \<open>
  A connected socket, seen from one end: the chunks in which the network will hand over
  the peer's bytes, what \<^verbatim>\<open>recv\<close> meets once they are used up (the peer has closed the
  connection, the peer stays silent, or the connection was reset), whether
  \<^verbatim>\<open>sendall\<close> succeeds, the messages sent so far, and whether \<^verbatim>\<open>close\<close> was called.
\<close>

datatype stream_end = PeerClosed | PeerSilent | PeerReset

record sock =
  incoming :: "byte list list"
  at_end :: stream_end
  writable :: bool
  sent :: "byte list list"
  closed :: bool

text \<open>
  \<^verbatim>\<open>recv(bufsize)\<close> returns at most \<^verbatim>\<open>bufsize\<close> bytes of the next chunk. After the
  last chunk it returns \<^verbatim>\<open>b""\<close> when the peer has closed, blocks when the peer is
  silent, and raises when the connection was reset.
\<close>

definition recv :: "nat \<Rightarrow> sock \<Rightarrow> ((error + byte list) \<times> sock) option" where
  "recv bufsize s =
     (case incoming s of
        [] \<Rightarrow> (case at_end s of
                 PeerClosed \<Rightarrow> Some (Inr [], s)
               | PeerSilent \<Rightarrow> None
               | PeerReset \<Rightarrow> Some (Inl ConnectionResetError, s))
      | chunk # chunks \<Rightarrow>
          if length chunk \<le> bufsize then Some (Inr chunk, s\<lparr>incoming := chunks\<rparr>)
          else Some (Inr (take bufsize chunk), s\<lparr>incoming := drop bufsize chunk # chunks\<rparr>))"

definition sendall :: "byte list \<Rightarrow> sock \<Rightarrow> error + sock" where
  "sendall message s =
     (if writable s then Inr (s\<lparr>sent := sent s @ [message]\<rparr>) else Inl BrokenPipeError)"

definition close :: "sock \<Rightarrow> sock" where
  "close s = s\<lparr>closed := True\<rparr>"

text \<open>
  The first loop of a receive, in both programs:
  \<^verbatim>\<open>while len(data) < payload_size: packet = recv(4096); if not packet: break; data += packet\<close>
\<close>

partial_function (option) recv_header ::
  "byte list \<Rightarrow> sock \<Rightarrow> ((error + byte list) \<times> sock) option" where
  "recv_header data s =
     (if length data < payload_size then
        (case recv 4096 s of
           None \<Rightarrow> None
         | Some (Inl e, s') \<Rightarrow> Some (Inl e, s')
         | Some (Inr packet, s') \<Rightarrow>
             if packet = [] then Some (Inr data, s')
             else recv_header (data @ packet) s')
      else Some (Inr data, s))"

text \<open>
  The second loop, in both programs:
  \<^verbatim>\<open>while len(data) < msg_size: data += recv(4096)\<close>
\<close>

partial_function (option) recv_payload ::
  "nat \<Rightarrow> byte list \<Rightarrow> sock \<Rightarrow> ((error + byte list) \<times> sock) option" where
  "recv_payload msg_size data s =
     (if length data < msg_size then
        (case recv 4096 s of
           None \<Rightarrow> None
         | Some (Inl e, s') \<Rightarrow> Some (Inl e, s')
         | Some (Inr packet, s') \<Rightarrow> recv_payload msg_size (data @ packet) s')
      else Some (Inr data, s))"

text \<open>
  The client's receive (pi_client.py): \<^verbatim>\<open>data\<close> starts empty; a short header makes
  \<^verbatim>\<open>struct.unpack\<close> raise; the result is \<^verbatim>\<open>data[:msg_size]\<close>.
\<close>

definition receive_client :: "sock \<Rightarrow> ((error + byte list) \<times> sock) option" where
  "receive_client s =
     (case recv_header [] s of
        None \<Rightarrow> None
      | Some (Inl e, s1) \<Rightarrow> Some (Inl e, s1)
      | Some (Inr data, s1) \<Rightarrow>
          (let packed_msg_size = take payload_size data;
               data = drop payload_size data
           in case unpack_Q packed_msg_size of
                Inl e \<Rightarrow> Some (Inl e, s1)
              | Inr msg_size \<Rightarrow>
                  (case recv_payload msg_size data s1 of
                     None \<Rightarrow> None
                   | Some (Inl e, s2) \<Rightarrow> Some (Inl e, s2)
                   | Some (Inr data, s2) \<Rightarrow> Some (Inr (take msg_size data), s2))))"

text \<open>
  The server's receive (server_mac.py): \<^verbatim>\<open>data\<close> is kept from one message to the
  next; a short header ends the session with \<^verbatim>\<open>break\<close>; the result is the frame
  \<^verbatim>\<open>data[:msg_size]\<close> and the rest \<^verbatim>\<open>data[msg_size:]\<close>.
\<close>

datatype received = Raised error sock | EndOfStream sock | Message "byte list" "byte list" sock

definition receive_server :: "byte list \<Rightarrow> sock \<Rightarrow> received option" where
  "receive_server data s =
     (case recv_header data s of
        None \<Rightarrow> None
      | Some (Inl e, s1) \<Rightarrow> Some (Raised e s1)
      | Some (Inr data, s1) \<Rightarrow>
          if length data < payload_size then Some (EndOfStream s1)
          else
            (let packed_msg_size = take payload_size data;
                 data = drop payload_size data
             in case unpack_Q packed_msg_size of
                  Inl e \<Rightarrow> Some (Raised e s1)
                | Inr msg_size \<Rightarrow>
                    (case recv_payload msg_size data s1 of
                       None \<Rightarrow> None
                     | Some (Inl e, s2) \<Rightarrow> Some (Raised e s2)
                     | Some (Inr data, s2) \<Rightarrow>
                         Some (Message (take msg_size data) (drop msg_size data) s2))))"

text \<open>
  What the server does, as a log: it accepts a connection, hands a received frame to
  the detector, sends a result back, reports an exception, closes the client socket.
\<close>

datatype event =
  Accept | Request "byte list" | Response "byte list" | Failure error | Close

text \<open>
  The inner \<^verbatim>\<open>while True\<close> of the server for one connection. \<open>process\<close> stands for
  \<^verbatim>\<open>pickle.loads\<close>, \<^verbatim>\<open>process_frame\<close> and \<^verbatim>\<open>pickle.dumps\<close>, which may raise.
  The function returns when the loop is left, by \<^verbatim>\<open>break\<close> or by an exception.
\<close>

partial_function (option) session ::
  "(byte list \<Rightarrow> error + byte list) \<Rightarrow> byte list \<Rightarrow> sock \<Rightarrow> event list \<Rightarrow>
   (event list \<times> sock) option" where
  "session process data s trace =
     (case receive_server data s of
        None \<Rightarrow> None
      | Some (Raised e s1) \<Rightarrow> Some (trace @ [Failure e], s1)
      | Some (EndOfStream s1) \<Rightarrow> Some (trace, s1)
      | Some (Message frame_data data s1) \<Rightarrow>
          (case process frame_data of
             Inl e \<Rightarrow> Some (trace @ [Request frame_data, Failure e], s1)
           | Inr result_data \<Rightarrow>
               (case frame_message result_data of
                  Inl e \<Rightarrow> Some (trace @ [Request frame_data, Failure e], s1)
                | Inr message \<Rightarrow>
                    (case sendall message s1 of
                       Inl e \<Rightarrow> Some (trace @ [Request frame_data, Failure e], s1)
                     | Inr s2 \<Rightarrow>
                         session process data s2
                           (trace @ [Request frame_data, Response result_data])))))"

text \<open>
  The outer \<^verbatim>\<open>while True\<close> of the server, over the connections that arrive: accept,
  run the session with \<^verbatim>\<open>data = b""\<close>, and whichever way the session ends
  (\<^verbatim>\<open>break\<close>, or an exception caught by \<^verbatim>\<open>except Exception\<close>) close the client
  socket in \<^verbatim>\<open>finally\<close> and go round again. After the last connection of the list the
  server waits in \<^verbatim>\<open>accept\<close>.
\<close>

fun serve ::
  "(byte list \<Rightarrow> error + byte list) \<Rightarrow> sock list \<Rightarrow> (event list \<times> sock list) option" where
  "serve process [] = Some ([], [])"
| "serve process (client_socket # rest) =
     (case session process [] client_socket [Accept] of
        None \<Rightarrow> None
      | Some (trace, s) \<Rightarrow>
          (case serve process rest of
             None \<Rightarrow> None
           | Some (traces, socks) \<Rightarrow> Some (trace @ [Close] @ traces, close s # socks)))"

text \<open>
  The shape of what one session adds to the log: exchanges of a request and its
  response, and at the end possibly an exception, alone or after a request that got no
  response.
\<close>

fun exchanges :: "event list \<Rightarrow> bool" where
  "exchanges [] = True"
| "exchanges [Failure e] = True"
| "exchanges [Request frame_data, Failure e] = True"
| "exchanges (Request frame_data # Response result_data # evs) = exchanges evs"
| "exchanges evs = False"

text \<open>
  A log in which an exception is followed by the close of the socket and then by nothing
  or by the next accept.
\<close>

fun after_failure :: "event list \<Rightarrow> bool" where
  "after_failure [] = True"
| "after_failure (Failure e # rest) =
     ((rest = [Close] \<or> take 2 rest = [Close, Accept]) \<and> after_failure rest)"
| "after_failure (ev # rest) = after_failure rest"

subsection \<open>Streams and clients used as concrete inputs\<close>

text \<open>
  A peer that sends a header declaring 5 bytes, then 2 bytes, and closes; a peer that
  sends 1,000,000 bytes framed, which arrive as the header and one large chunk; a client
  that sends one framed byte, a client whose connection is reset, and a client that
  closes at once; a detector that raises.
\<close>

definition short_stream :: sock where
  "short_stream =
     \<lparr>incoming = [le_bytes 8 5 @ [1, 2]], at_end = PeerClosed, writable = True, sent = [],
      closed = False\<rparr>"

definition big_stream :: sock where
  "big_stream =
     \<lparr>incoming = [le_bytes 8 1000000, replicate 1000000 0], at_end = PeerSilent,
      writable = True, sent = [], closed = False\<rparr>"

definition failing_client :: sock where
  "failing_client =
     \<lparr>incoming = [le_bytes 8 1, [42]], at_end = PeerSilent, writable = True, sent = [],
      closed = False\<rparr>"

definition reset_client :: sock where
  "reset_client =
     \<lparr>incoming = [], at_end = PeerReset, writable = True, sent = [], closed = False\<rparr>"

definition leaving_client :: sock where
  "leaving_client =
     \<lparr>incoming = [], at_end = PeerClosed, writable = True, sent = [], closed = False\<rparr>"

definition broken_detector :: "byte list \<Rightarrow> error + byte list" where
  "broken_detector frame_data = Inl ProcessError"

section \<open>Facts about double-precision subtraction\<close>

lemma round_half_even_bounds:
  "\<lfloor>x\<rfloor> \<le> round_half_even x" "round_half_even x \<le> \<lfloor>x\<rfloor> + 1"
  by (simp_all add: round_half_even_def Let_def)

lemma round_half_even_mono: "x \<le> y \<Longrightarrow> round_half_even x \<le> round_half_even y"
proof -
  assume xy: "x \<le> y"
  then have f: "\<lfloor>x\<rfloor> \<le> \<lfloor>y\<rfloor>" by (rule floor_mono)
  show ?thesis
  proof (cases "\<lfloor>x\<rfloor> = \<lfloor>y\<rfloor>")
    case True
    with xy show ?thesis
      by (auto simp: round_half_even_def Let_def)
  next
    case False
    with f have "\<lfloor>x\<rfloor> + 1 \<le> \<lfloor>y\<rfloor>" by simp
    with round_half_even_bounds(2) [of x] round_half_even_bounds(1) [of y]
    show ?thesis by linarith
  qed
qed

lemma round_half_even_of_int [simp]: "round_half_even (of_int k) = k"
  by (simp add: round_half_even_def)

lemma round_half_even_ge:
  "of_int n \<le> x \<Longrightarrow> n \<le> round_half_even x"
  using round_half_even_mono [of "of_int n" x] by simp

lemma round_half_even_le:
  "x \<le> of_int n \<Longrightarrow> round_half_even x \<le> n"
  using round_half_even_mono [of x "of_int n"] by simp


lemma ulp_pos: "0 < ulp e"
  by (simp add: ulp_def)

lemma ulp_mono: "e \<le> e' \<Longrightarrow> ulp e \<le> ulp e'"
  by (simp add: ulp_def)

lemma ulp_scale:
  "ulp e * 2 powr 52 = 2 powr of_int e" "ulp e * 2 powr 53 = 2 powr (of_int e + 1)"
proof -
  have "ulp e * 2 powr 52 = 2 powr (of_int e - 52 + 52)"
    unfolding ulp_def by (rule powr_add [symmetric])
  then show "ulp e * 2 powr 52 = 2 powr of_int e"
    by (simp only: diff_add_cancel)
  have "ulp e * 2 powr 53 = 2 powr (of_int e - 52 + 53)"
    unfolding ulp_def by (rule powr_add [symmetric])
  moreover have "real_of_int e - 52 + 53 = of_int e + 1" by simp
  ultimately show "ulp e * 2 powr 53 = 2 powr (of_int e + 1)"
    by (simp only:)
qed

lemma two_powr_int: "(2::real) powr 52 = of_int (2 ^ 52)" "(2::real) powr 53 = of_int (2 ^ 53)"
  by simp_all

lemma exponent_upper: "0 < x \<Longrightarrow> x < 2 powr (of_int (exponent x) + 1)"
proof -
  assume x: "0 < x"
  have "x < 2 powr (of_int \<lfloor>log 2 x\<rfloor> + 1)"
    using floor_log_eq_powr_iff [of x 2 "\<lfloor>log 2 x\<rfloor>"] x by simp
  also have "\<dots> \<le> 2 powr (of_int (exponent x) + 1)"
    by (simp add: exponent_def)
  finally show ?thesis .
qed

lemma exponent_lower: "0 < x \<Longrightarrow> - 1022 < exponent x \<Longrightarrow> 2 powr of_int (exponent x) \<le> x"
proof -
  assume x: "0 < x" and e: "- 1022 < exponent x"
  then have "exponent x = \<lfloor>log 2 x\<rfloor>"
    by (simp add: exponent_def max_def split: if_splits)
  then show ?thesis
    using floor_log_eq_powr_iff [of x 2 "\<lfloor>log 2 x\<rfloor>"] x by simp
qed

lemma exponent_mono: "0 < x \<Longrightarrow> x \<le> y \<Longrightarrow> exponent x \<le> exponent y"
proof -
  assume "0 < x" "x \<le> y"
  then have "log 2 x \<le> log 2 y" by simp
  then have "\<lfloor>log 2 x\<rfloor> \<le> \<lfloor>log 2 y\<rfloor>" by (rule floor_mono)
  then show ?thesis unfolding exponent_def by (rule max.mono) simp
qed

lemma exponent_eq:
  "2 powr of_int e \<le> x \<Longrightarrow> x < 2 powr (of_int e + 1) \<Longrightarrow> - 1022 \<le> e \<Longrightarrow> exponent x = e"
proof -
  assume a: "2 powr of_int e \<le> x" "x < 2 powr (of_int e + 1)" "- 1022 \<le> e"
  have "0 < 2 powr (of_int e :: real)" by simp
  with a(1) have x: "0 < x" by linarith
  with a have "\<lfloor>log 2 x\<rfloor> = e"
    using floor_log_eq_powr_iff [of x 2 e] by simp
  with a(3) show ?thesis by (simp add: exponent_def)
qed

lemma round_positive_upper:
  assumes "0 < x"
  shows "round_positive x \<le> 2 powr (of_int (exponent x) + 1)"
proof -
  let ?u = "ulp (exponent x)"
  have "x < ?u * 2 powr 53"
    using exponent_upper [OF assms] by (simp only: ulp_scale)
  then have "x / ?u < 2 powr 53"
    using ulp_pos [of "exponent x"] by (simp add: field_simps del: powr_numeral)
  then have "x / ?u \<le> of_int (2 ^ 53)"
    by (simp only: two_powr_int)
  then have "round_half_even (x / ?u) \<le> 2 ^ 53"
    by (rule round_half_even_le)
  then have "of_int (round_half_even (x / ?u)) \<le> (of_int (2 ^ 53) :: real)"
    by (simp only: of_int_le_iff)
  then have "of_int (round_half_even (x / ?u)) \<le> (2::real) powr 53"
    by (simp only: two_powr_int)
  then have "?u * of_int (round_half_even (x / ?u)) \<le> ?u * 2 powr 53"
    using ulp_pos [of "exponent x"] by (simp only: mult_le_cancel_left_pos)
  then show ?thesis
    by (simp only: round_positive_def ulp_scale)
qed

lemma round_positive_lower:
  assumes "0 < x" and "- 1022 < exponent x"
  shows "2 powr of_int (exponent x) \<le> round_positive x"
proof -
  let ?u = "ulp (exponent x)"
  have "?u * 2 powr 52 \<le> x"
    using exponent_lower [OF assms] by (simp only: ulp_scale)
  then have "2 powr 52 \<le> x / ?u"
    using ulp_pos [of "exponent x"] by (simp add: field_simps del: powr_numeral)
  then have "of_int (2 ^ 52) \<le> x / ?u"
    by (simp only: two_powr_int)
  then have "2 ^ 52 \<le> round_half_even (x / ?u)"
    by (rule round_half_even_ge)
  then have "(of_int (2 ^ 52) :: real) \<le> of_int (round_half_even (x / ?u))"
    by (simp only: of_int_le_iff)
  then have "(2::real) powr 52 \<le> of_int (round_half_even (x / ?u))"
    by (simp only: two_powr_int)
  then have "?u * 2 powr 52 \<le> ?u * of_int (round_half_even (x / ?u))"
    using ulp_pos [of "exponent x"] by (simp only: mult_le_cancel_left_pos)
  then show ?thesis
    by (simp only: round_positive_def ulp_scale)
qed

lemma round_positive_nonneg: "0 < x \<Longrightarrow> 0 \<le> round_positive x"
proof -
  assume "0 < x"
  then have "of_int 0 \<le> x / ulp (exponent x)"
    using ulp_pos [of "exponent x"] by simp
  then have "0 \<le> round_half_even (x / ulp (exponent x))"
    by (rule round_half_even_ge)
  then show ?thesis
    using ulp_pos [of "exponent x"] by (simp add: round_positive_def)
qed

lemma round_positive_mono:
  assumes "0 < x" and "x \<le> y"
  shows "round_positive x \<le> round_positive y"
proof (cases "exponent x = exponent y")
  case True
  have "x / ulp (exponent y) \<le> y / ulp (exponent y)"
    using assms(2) ulp_pos [of "exponent y"] by (simp add: divide_right_mono)
  then have "round_half_even (x / ulp (exponent y)) \<le> round_half_even (y / ulp (exponent y))"
    by (rule round_half_even_mono)
  then show ?thesis
    using ulp_pos [of "exponent y"] by (simp add: round_positive_def True)
next
  case False
  from assms have y: "0 < y" by simp
  from False exponent_mono [OF assms] have lt: "exponent x + 1 \<le> exponent y" by simp
  have "- 1022 \<le> exponent x" by (simp add: exponent_def)
  with lt have big: "- 1022 < exponent y" by simp
  have "round_positive x \<le> 2 powr (of_int (exponent x) + 1)"
    by (rule round_positive_upper [OF assms(1)])
  also have "\<dots> \<le> 2 powr of_int (exponent y)"
    using lt by (simp flip: of_int_add del: of_int_add)
  also have "\<dots> \<le> round_positive y"
    by (rule round_positive_lower [OF y big])
  finally show ?thesis .
qed

lemma round_double_mono: "x \<le> y \<Longrightarrow> round_double x \<le> round_double y"
proof -
  assume xy: "x \<le> y"
  consider "0 < x" | "x = 0" | "x < 0" "y < 0" | "x < 0" "0 \<le> y" by linarith
  then show ?thesis
  proof cases
    case 1
    with xy round_positive_mono [of x y] show ?thesis by (simp add: round_double_def)
  next
    case 2
    with xy round_positive_nonneg [of y] show ?thesis by (auto simp: round_double_def)
  next
    case 3
    with xy round_positive_mono [of "- y" "- x"] show ?thesis by (simp add: round_double_def)
  next
    case 4
    with round_positive_nonneg [of "- x"] round_positive_nonneg [of y] show ?thesis
      by (auto simp: round_double_def)
  qed
qed

lemma round_double_zero [simp]: "round_double 0 = 0"
  by (simp add: round_double_def)

lemma round_double_exact:
  assumes "2 powr of_int e \<le> x" and "x < 2 powr (of_int e + 1)" and "- 1022 \<le> e"
    and "x = ulp e * of_int k"
  shows "round_double x = x"
proof -
  have "0 < 2 powr (of_int e :: real)" by simp
  with assms(1) have x: "0 < x" by linarith
  have e: "exponent x = e" by (rule exponent_eq [OF assms(1-3)])
  have q: "x / ulp e = of_int k"
    unfolding assms(4) using ulp_pos [of e] by simp
  have "round_positive x = ulp e * of_int (round_half_even (x / ulp e))"
    by (simp only: round_positive_def e)
  also have "\<dots> = ulp e * of_int k"
    by (simp only: q round_half_even_of_int)
  also have "\<dots> = x"
    by (rule assms(4) [symmetric])
  finally have "round_positive x = x" .
  with x show ?thesis by (simp add: round_double_def)
qed

lemma round_double_binade:
  assumes "2 powr of_int e \<le> x" and "x < 2 powr (of_int e + 1)" and "- 1022 \<le> e"
  shows "round_double x = ulp e * of_int (round_half_even (x / ulp e))"
proof -
  have "0 < 2 powr (of_int e :: real)" by simp
  with assms(1) have x: "0 < x" by linarith
  have e: "exponent x = e" by (rule exponent_eq [OF assms])
  with x show ?thesis by (simp add: round_double_def round_positive_def)
qed

lemma ulp_1: "ulp 1 = 1 / 2 ^ 51" and ulp_2: "ulp 2 = 1 / 2 ^ 50" and ulp_0: "ulp 0 = 1 / 2 ^ 52"
  by (simp_all add: ulp_def powr_minus_divide)

lemma round_double_2 [simp]: "round_double 2 = 2"
  by (rule round_double_exact [of 1 _ "2 ^ 52"]) (simp_all add: ulp_1)

lemma round_double_3 [simp]: "round_double 3 = 3"
  by (rule round_double_exact [of 1 _ "3 * 2 ^ 51"]) (simp_all add: ulp_1)

lemma round_double_4 [simp]: "round_double 4 = 4"
  by (rule round_double_exact [of 2 _ "2 ^ 52"]) (simp_all add: ulp_2)

lemma round_double_5 [simp]: "round_double 5 = 5"
  by (rule round_double_exact [of 2 _ "5 * 2 ^ 50"]) (simp_all add: ulp_2)

lemma round_double_7 [simp]: "round_double 7 = 7"
  by (rule round_double_exact [of 2 _ "7 * 2 ^ 50"]) (simp_all add: ulp_2)


lemma round_double_just_below_5: "round_double (5 - 1 / 2 ^ 50) = 5 - 1 / 2 ^ 50"
  by (rule round_double_exact [of 2 _ "5 * 2 ^ 50 - 1"]) (simp_all add: ulp_2)

lemma round_double_31_16: "round_double (31 / 16) = 31 / 16"
  by (rule round_double_exact [of 0 _ "31 * 2 ^ 48"]) (simp_all add: ulp_0)

lemma round_double_17_4: "round_double (17 / 4) = 17 / 4"
  by (rule round_double_exact [of 2 _ "17 * 2 ^ 48"]) (simp_all add: ulp_2)





text \<open>A double below 7 is at most 7 - 2^-50, so its rounded distance to 2 is below 5.\<close>

lemma double_below_7:
  assumes "is_double t" and "t < 7"
  shows "round_double (t - 2) < 5"
proof (cases "t \<le> 6")
  case True
  then have "round_double (t - 2) \<le> round_double 4" by (intro round_double_mono) simp
  then show ?thesis by simp
next
  case False
  then have b: "2 powr of_int 2 \<le> t" "t < 2 powr (of_int 2 + 1)"
    using assms(2) by simp_all
  have "t = round_double t"
    using assms(1) by (simp only: is_double_def)
  also have "\<dots> = ulp 2 * of_int (round_half_even (t / ulp 2))"
    by (rule round_double_binade [OF b]) simp
  finally have "t = ulp 2 * of_int (round_half_even (t / ulp 2))" .
  then obtain k :: int where k: "t = ulp 2 * of_int k" by blast
  with assms(2) have "of_int k < (of_int (7 * 2 ^ 50) :: real)"
    by (simp add: ulp_2 field_simps)
  then have "k < 7 * 2 ^ 50" by (simp only: of_int_less_iff)
  then have "k \<le> 7 * 2 ^ 50 - 1" by simp
  then have "(of_int k :: real) \<le> of_int (7 * 2 ^ 50 - 1)" by (simp only: of_int_le_iff)
  then have "t \<le> ulp 2 * of_int (7 * 2 ^ 50 - 1)"
    using ulp_pos [of 2] unfolding k by (simp only: mult_le_cancel_left_pos)
  also have "\<dots> = 7 - 1 / 2 ^ 50" by (simp add: ulp_2 field_simps)
  finally have "t - 2 \<le> 5 - 1 / 2 ^ 50" by simp
  then have "round_double (t - 2) \<le> round_double (5 - 1 / 2 ^ 50)"
    by (rule round_double_mono)
  then have "round_double (t - 2) \<le> 5 - 1 / 2 ^ 50"
    by (simp only: round_double_just_below_5)
  also have "\<dots> < 5" by simp
  finally show ?thesis .
qed

section \<open>Facts about one frame\<close>

lemma count_detection_keys:
  "fst ` set (count_detection d uc) = insert (class_name d) (fst ` set uc)"
  by (simp add: count_detection_def dom_update)

lemma fold_count_detection_keys:
  "fst ` set (fold count_detection ds uc) = class_name ` set ds \<union> fst ` set uc"
  by (induction ds arbitrary: uc) (auto simp: count_detection_keys)

lemma utensil_count_keys: "fst ` set (utensil_count rs) = class_name ` set (utensils rs)"
  by (simp add: utensil_count_def fold_count_detection_keys)

lemma fold_count_detection_distinct:
  "distinct (map fst uc) \<Longrightarrow> distinct (map fst (fold count_detection ds uc))"
  by (induction ds arbitrary: uc) (simp_all add: count_detection_def distinct_update)

lemma utensil_count_distinct: "distinct (map fst (utensil_count rs))"
  by (simp add: utensil_count_def fold_count_detection_distinct)

lemma utensil_count_empty: "utensil_count rs = [] \<longleftrightarrow> utensils rs = []"
proof -
  have "utensil_count rs = [] \<longleftrightarrow> fst ` set (utensil_count rs) = {}"
    by simp
  also have "\<dots> \<longleftrightarrow> utensils rs = []"
    unfolding utensil_count_keys by simp
  finally show ?thesis .
qed

lemma track_utensil_first_seen:
  "map_of (utensil_first_seen (fst (track_utensil st now k acc))) =
     (map_of (utensil_first_seen (fst acc)))
       (k := if st = UNATTENDED
             then Some (case map_of (utensil_first_seen (fst acc)) k of
                          None \<Rightarrow> now | Some f \<Rightarrow> f)
             else None)"
  by (auto simp: track_utensil_def Let_def update_conv' delete_conv' fun_eq_iff
      split: option.splits)

lemma track_utensil_last_alert:
  "map_of (last_alert_time (fst (track_utensil st now k acc))) =
     (if should_alert st now (fst acc) k
      then (map_of (last_alert_time (fst acc)))(k \<mapsto> now)
      else map_of (last_alert_time (fst acc)))"
  by (auto simp: track_utensil_def should_alert_def Let_def update_conv'
      split: option.splits)

lemma track_utensil_alerts:
  "snd (track_utensil st now k acc) =
     snd acc @ (if should_alert st now (fst acc) k then [k] else [])"
  by (auto simp: track_utensil_def should_alert_def Let_def split: option.splits)

lemma track_utensil_distinct:
  "distinct (map fst (utensil_first_seen (fst acc))) \<Longrightarrow>
   distinct (map fst (utensil_first_seen (fst (track_utensil st now k acc))))"
  by (auto simp: track_utensil_def Let_def distinct_update distinct_delete
      split: option.splits)

lemma should_alert_other:
  "x \<noteq> k \<Longrightarrow>
   should_alert st now (fst (track_utensil st now k acc)) x = should_alert st now (fst acc) x"
  unfolding should_alert_def [of _ _ _ x]
  by (simp add: track_utensil_first_seen track_utensil_last_alert)

lemma fold_track_first_seen:
  "map_of (utensil_first_seen (fst (fold (track_utensil st now) ks acc))) x =
     (if x \<in> set ks
      then (if st = UNATTENDED
            then Some (case map_of (utensil_first_seen (fst acc)) x of
                         None \<Rightarrow> now | Some f \<Rightarrow> f)
            else None)
      else map_of (utensil_first_seen (fst acc)) x)"
  by (induction ks arbitrary: acc)
     (auto simp: track_utensil_first_seen split: option.splits)

lemma fold_track_alerts:
  "distinct ks \<Longrightarrow>
   snd (fold (track_utensil st now) ks acc) =
     snd acc @ filter (should_alert st now (fst acc)) ks"
proof (induction ks arbitrary: acc)
  case Nil
  then show ?case by simp
next
  case (Cons k ks)
  have "filter (should_alert st now (fst (track_utensil st now k acc))) ks =
        filter (should_alert st now (fst acc)) ks"
  proof (rule filter_cong [OF refl])
    fix x assume "x \<in> set ks"
    with Cons.prems have "x \<noteq> k" by auto
    then show "should_alert st now (fst (track_utensil st now k acc)) x =
               should_alert st now (fst acc) x"
      by (rule should_alert_other)
  qed
  with Cons show ?case
    by (simp add: track_utensil_alerts)
qed

lemma fold_track_last_alert:
  "distinct ks \<Longrightarrow>
   map_of (last_alert_time (fst (fold (track_utensil st now) ks acc))) x =
     (if x \<in> set ks \<and> should_alert st now (fst acc) x then Some now
      else map_of (last_alert_time (fst acc)) x)"
proof (induction ks arbitrary: acc)
  case Nil
  then show ?case by simp
next
  case (Cons k ks)
  show ?case
  proof (cases "x = k")
    case True
    with Cons show ?thesis
      by (simp add: track_utensil_last_alert)
  next
    case False
    with Cons show ?thesis
      by (simp add: track_utensil_last_alert should_alert_other)
  qed
qed

lemma fold_track_distinct:
  "distinct (map fst (utensil_first_seen (fst acc))) \<Longrightarrow>
   distinct (map fst (utensil_first_seen (fst (fold (track_utensil st now) ks acc))))"
  by (induction ks arbitrary: acc) (simp_all add: track_utensil_distinct)

lemma fold_remove_first_seen:
  "map_of (utensil_first_seen (fold remove_utensil us tr)) x =
     (if x \<in> set us then None else map_of (utensil_first_seen tr) x)"
  by (induction us arbitrary: tr) (auto simp: remove_utensil_def delete_conv')

lemma fold_remove_last_alert:
  "last_alert_time (fold remove_utensil us tr) = last_alert_time tr"
  by (induction us arbitrary: tr) (simp_all add: remove_utensil_def)

lemma fold_remove_distinct:
  "distinct (map fst (utensil_first_seen tr)) \<Longrightarrow>
   distinct (map fst (utensil_first_seen (fold remove_utensil us tr)))"
  by (induction us arbitrary: tr) (simp_all add: remove_utensil_def distinct_delete)

lemma track_tick_alerts:
  "snd (track_tick now rs tr) =
     filter (should_alert (determine_state rs) now tr) (map fst (utensil_count rs))"
  by (simp add: track_tick_def Let_def fold_track_alerts utensil_count_distinct)

lemma track_tick_last_alert:
  "map_of (last_alert_time (fst (track_tick now rs tr))) x =
     (if x \<in> set (snd (track_tick now rs tr)) then Some now
      else map_of (last_alert_time tr) x)"
  by (simp add: track_tick_def Let_def fold_remove_last_alert fold_track_last_alert
      fold_track_alerts utensil_count_distinct)

lemma key_in_dict: "x \<in> set (map fst al) \<longleftrightarrow> map_of al x \<noteq> None"
  by (simp add: map_of_eq_None_iff)

lemma track_tick_first_seen:
  "map_of (utensil_first_seen (fst (track_tick now rs tr))) x =
     (if determine_state rs = UNATTENDED \<and> x \<in> class_name ` set (utensils rs)
      then Some (case map_of (utensil_first_seen tr) x of None \<Rightarrow> now | Some f \<Rightarrow> f)
      else None)"
proof -
  let ?uc = "utensil_count rs"
  let ?acc = "fold (track_utensil (determine_state rs) now) (map fst ?uc) (tr, [])"
  let ?rm = "filter (\<lambda>u. map_of ?uc u = None) (map fst (utensil_first_seen (fst ?acc)))"
  have keys: "x \<in> set (map fst ?uc) \<longleftrightarrow> x \<in> class_name ` set (utensils rs)"
    using utensil_count_keys [of rs] by simp
  have rm: "x \<in> set ?rm \<longleftrightarrow>
            x \<notin> class_name ` set (utensils rs) \<and>
            map_of (utensil_first_seen (fst ?acc)) x \<noteq> None"
    unfolding set_filter mem_Collect_eq key_in_dict keys [symmetric] by auto
  have acc: "map_of (utensil_first_seen (fst ?acc)) x =
     (if x \<in> class_name ` set (utensils rs)
      then (if determine_state rs = UNATTENDED
            then Some (case map_of (utensil_first_seen tr) x of None \<Rightarrow> now | Some f \<Rightarrow> f)
            else None)
      else map_of (utensil_first_seen tr) x)"
    unfolding fold_track_first_seen keys by simp
  have "map_of (utensil_first_seen (fst (track_tick now rs tr))) x =
        (if x \<in> set ?rm then None else map_of (utensil_first_seen (fst ?acc)) x)"
    by (simp add: track_tick_def Let_def fold_remove_first_seen)
  also have "\<dots> = (if determine_state rs = UNATTENDED \<and> x \<in> class_name ` set (utensils rs)
      then Some (case map_of (utensil_first_seen tr) x of None \<Rightarrow> now | Some f \<Rightarrow> f)
      else None)"
    unfolding rm acc by auto
  finally show ?thesis .
qed

section \<open>Facts about runs\<close>






lemma track_tick_alerts_distinct: "distinct (snd (track_tick now rs tr))"
  by (simp add: track_tick_alerts utensil_count_distinct)



lemma run_append:
  "run tr (xs @ ys) =
     (fst (run tr xs) @ fst (run (snd (run tr xs)) ys), snd (run (snd (run tr xs)) ys))"
  by (induction xs arbitrary: tr) (simp_all add: Let_def)


section \<open>The fork scenario, frame by frame\<close>

lemma fork_alone_count: "utensil_count fork_alone = [(''fork'', 1)]"
  by (simp add: utensil_count_def count_detection_def fork_alone_def fork_def)

lemma fork_alone_state: "determine_state fork_alone = UNATTENDED"
  by (simp add: determine_state_def hand_count_def utensil_count_empty fork_alone_def)

lemma fork_alone_names: "class_name ` set (utensils fork_alone) = {''fork''}"
  by (simp add: fork_alone_def fork_def)

lemma fork_with_person_count: "utensil_count fork_with_person = [(''fork'', 1)]"
  by (simp add: utensil_count_def count_detection_def fork_with_person_def fork_def)

lemma fork_with_person_state: "determine_state fork_with_person = ATTENDED"
  by (simp add: determine_state_def hand_count_def utensil_count_empty fork_with_person_def)

text \<open>The rounded differences that the scenario meets.\<close>

lemma round_double_19_10: "\<not> 2 \<le> round_double (19 / 10)"
proof -
  have "round_double (19 / 10) \<le> round_double (31 / 16)"
    by (rule round_double_mono) simp
  then show ?thesis by (simp add: round_double_31_16)
qed

lemma round_double_11_5: "\<not> 5 \<le> round_double (11 / 5)"
proof -
  have "round_double (11 / 5) \<le> round_double 4"
    by (rule round_double_mono) simp
  then show ?thesis by simp
qed

lemma round_double_24_5: "2 \<le> round_double (24 / 5)"
proof -
  have "round_double 4 \<le> round_double (24 / 5)"
    by (rule round_double_mono) simp
  then show ?thesis by simp
qed

lemmas tick_eval =
  track_tick_def fork_alone_count fork_alone_state fork_with_person_count
  fork_with_person_state track_utensil_def remove_utensil_def
  UNATTENDED_THRESHOLD_def ALERT_COOLDOWN_def time_diff_def
  round_double_19_10 round_double_11_5 round_double_24_5

lemma tick_0:
  "track_tick 0 fork_alone initial_tracker =
     (\<lparr>utensil_first_seen = [(''fork'', 0)], last_alert_time = []\<rparr>, [])"
  by (simp add: tick_eval initial_tracker_def)

lemma tick_1_9:
  "track_tick (19 / 10) fork_alone \<lparr>utensil_first_seen = [(''fork'', 0)], last_alert_time = []\<rparr> =
     (\<lparr>utensil_first_seen = [(''fork'', 0)], last_alert_time = []\<rparr>, [])"
  by (simp add: tick_eval)

lemma tick_2_0:
  "track_tick 2 fork_alone \<lparr>utensil_first_seen = [(''fork'', 0)], last_alert_time = []\<rparr> =
     (\<lparr>utensil_first_seen = [(''fork'', 0)], last_alert_time = [(''fork'', 2)]\<rparr>, [''fork''])"
  by (simp add: tick_eval)

lemma tick_2_1:
  "track_tick (21 / 10) fork_with_person
       \<lparr>utensil_first_seen = [(''fork'', 0)], last_alert_time = [(''fork'', 2)]\<rparr> =
     (\<lparr>utensil_first_seen = [], last_alert_time = [(''fork'', 2)]\<rparr>, [])"
  by (simp add: tick_eval)

lemma tick_2_2:
  "track_tick (11 / 5) fork_alone
       \<lparr>utensil_first_seen = [], last_alert_time = [(''fork'', 2)]\<rparr> =
     (\<lparr>utensil_first_seen = [(''fork'', 11 / 5)], last_alert_time = [(''fork'', 2)]\<rparr>, [])"
  by (simp add: tick_eval)

lemma tick_4_2:
  "track_tick (21 / 5) fork_alone
       \<lparr>utensil_first_seen = [(''fork'', 11 / 5)], last_alert_time = [(''fork'', 2)]\<rparr> =
     (\<lparr>utensil_first_seen = [(''fork'', 11 / 5)], last_alert_time = [(''fork'', 2)]\<rparr>, [])"
  by (simp add: tick_eval)


lemma scenario_run:
  "run initial_tracker scenario_ticks =
     ([(2, ''fork'')],
      \<lparr>utensil_first_seen = [(''fork'', 11 / 5)], last_alert_time = [(''fork'', 2)]\<rparr>)"
  by (simp add: scenario_ticks_def tick_0 tick_1_9 tick_2_0 tick_2_1 tick_2_2)

lemma scenario_run_4_2:
  "run initial_tracker (scenario_ticks @ [(21 / 5, fork_alone)]) =
     ([(2, ''fork'')],
      \<lparr>utensil_first_seen = [(''fork'', 11 / 5)], last_alert_time = [(''fork'', 2)]\<rparr>)"
  by (simp add: run_append scenario_run tick_4_2)


subsection \<open>Runs in which rounding decides\<close>












section \<open>Quiet frames and the frame that alerts\<close>

lemma track_tick_alert_iff:
  "k \<in> set (snd (track_tick now rs tr)) \<longleftrightarrow>
     k \<in> class_name ` set (utensils rs) \<and> should_alert (determine_state rs) now tr k"
  using utensil_count_keys [of rs] by (auto simp: track_tick_alerts)

lemma alerts_of_type:
  "distinct ks \<Longrightarrow>
   filter (\<lambda>e. snd e = k) (map (Pair t) ks) = (if k \<in> set ks then [(t, k)] else [])"
  by (induction ks) auto

lemma track_tick_alerts_of_type:
  "filter (\<lambda>e. snd e = k) (map (Pair now) (snd (track_tick now rs tr))) =
     (if k \<in> class_name ` set (utensils rs) \<and> should_alert (determine_state rs) now tr k
      then [(now, k)] else [])"
  by (simp add: alerts_of_type track_tick_alerts_distinct track_tick_alert_iff)

lemma run_quiet:
  assumes "map_of (utensil_first_seen tr) k = Some f"
    and "map_of (last_alert_time tr) k = l"
    and "\<forall>tick \<in> set pre.
           determine_state (snd tick) = UNATTENDED \<and>
           k \<in> class_name ` set (utensils (snd tick)) \<and>
           \<not> (UNATTENDED_THRESHOLD \<le> time_diff (fst tick) f \<and>
              (case l of None \<Rightarrow> True
               | Some last_alert \<Rightarrow> ALERT_COOLDOWN \<le> time_diff (fst tick) last_alert))"
  shows "filter (\<lambda>e. snd e = k) (fst (run tr pre)) = [] \<and>
         map_of (utensil_first_seen (snd (run tr pre))) k = Some f \<and>
         map_of (last_alert_time (snd (run tr pre))) k = l"
  using assms
proof (induction pre arbitrary: tr)
  case Nil
  then show ?case by simp
next
  case (Cons tick pre)
  let ?step = "track_tick (fst tick) (snd tick) tr"
  from Cons.prems have st: "determine_state (snd tick) = UNATTENDED"
    and mem: "k \<in> class_name ` set (utensils (snd tick))"
    and not_due: "\<not> should_alert (determine_state (snd tick)) (fst tick) tr k"
    by (auto simp: should_alert_def)
  have quiet: "k \<notin> set (snd ?step)"
    using not_due by (simp add: track_tick_alert_iff)
  have fs: "map_of (utensil_first_seen (fst ?step)) k = Some f"
    using st mem Cons.prems(1) by (simp add: track_tick_first_seen)
  have la: "map_of (last_alert_time (fst ?step)) k = l"
    using quiet Cons.prems(2) by (simp add: track_tick_last_alert)
  have rest: "\<forall>tick \<in> set pre.
           determine_state (snd tick) = UNATTENDED \<and>
           k \<in> class_name ` set (utensils (snd tick)) \<and>
           \<not> (UNATTENDED_THRESHOLD \<le> time_diff (fst tick) f \<and>
              (case l of None \<Rightarrow> True
               | Some last_alert \<Rightarrow> ALERT_COOLDOWN \<le> time_diff (fst tick) last_alert))"
    using Cons.prems(3) by simp
  from Cons.IH [OF fs la rest] quiet show ?case
    by (simp add: Let_def alerts_of_type track_tick_alerts_distinct)
qed

lemma run_quiet_then_alert:
  assumes "map_of (utensil_first_seen tr) k = Some f"
    and "map_of (last_alert_time tr) k = l"
    and "\<forall>tick \<in> set pre.
           determine_state (snd tick) = UNATTENDED \<and>
           k \<in> class_name ` set (utensils (snd tick)) \<and>
           \<not> (UNATTENDED_THRESHOLD \<le> time_diff (fst tick) f \<and>
              (case l of None \<Rightarrow> True
               | Some last_alert \<Rightarrow> ALERT_COOLDOWN \<le> time_diff (fst tick) last_alert))"
    and "determine_state r = UNATTENDED"
    and "k \<in> class_name ` set (utensils r)"
    and "UNATTENDED_THRESHOLD \<le> time_diff t f"
    and "case l of None \<Rightarrow> True | Some last_alert \<Rightarrow> ALERT_COOLDOWN \<le> time_diff t last_alert"
  shows "filter (\<lambda>e. snd e = k) (fst (run tr (pre @ [(t, r)]))) = [(t, k)]"
proof -
  let ?tr = "snd (run tr pre)"
  from run_quiet [OF assms(1-3)]
  have q: "filter (\<lambda>e. snd e = k) (fst (run tr pre)) = []"
    and fs: "map_of (utensil_first_seen ?tr) k = Some f"
    and la: "map_of (last_alert_time ?tr) k = l"
    by blast+
  have due: "should_alert (determine_state r) t ?tr k"
    using assms(4,6,7) fs la by (simp add: should_alert_def)
  have "filter (\<lambda>e. snd e = k) (fst (run ?tr [(t, r)])) = [(t, k)]"
    using due assms(5) by (simp add: Let_def track_tick_alerts_of_type)
  with q show ?thesis
    by (simp add: run_append)
qed

lemma run_unattended_keeps_first_seen:
  assumes "map_of (utensil_first_seen tr) k = Some f"
    and "\<forall>tick \<in> set ticks.
           determine_state (snd tick) = UNATTENDED \<and> k \<in> class_name ` set (utensils (snd tick))"
  shows "map_of (utensil_first_seen (snd (run tr ticks))) k = Some f"
  using assms
proof (induction ticks arbitrary: tr)
  case Nil
  then show ?case by simp
next
  case (Cons tick ticks)
  have "map_of (utensil_first_seen (fst (track_tick (fst tick) (snd tick) tr))) k = Some f"
    using Cons.prems by (simp add: track_tick_first_seen)
  from Cons.IH [OF this] Cons.prems(2) show ?case
    by (simp add: Let_def)
qed



section \<open>Facts about the frame transport\<close>

lemma length_le_bytes: "length (le_bytes k n) = k"
  by (induction k arbitrary: n) simp_all

lemma le_value_le_bytes: "n < 256 ^ k \<Longrightarrow> le_value (le_bytes k n) = n"
proof (induction k arbitrary: n)
  case 0
  then show ?case by simp
next
  case (Suc k)
  have "n div 256 < 256 ^ k"
    using Suc.prems by (simp add: less_mult_imp_div_less mult.commute)
  then have "le_value (le_bytes k (n div 256)) = n div 256"
    by (rule Suc.IH)
  moreover have "unat (word_of_nat (n mod 256) :: byte) = n mod 256"
    by (simp add: unat_of_nat)
  ultimately show ?case by simp
qed

lemma unpack_pack: "pack_Q n = Inr b \<Longrightarrow> unpack_Q b = Inr n"
  by (auto simp: pack_Q_def unpack_Q_def length_le_bytes le_value_le_bytes split: if_splits)

lemma pack_length: "pack_Q n = Inr b \<Longrightarrow> length b = payload_size"
  by (auto simp: pack_Q_def payload_size_def length_le_bytes split: if_splits)

lemma recv_chunk:
  "incoming s = chunk # chunks \<Longrightarrow>
   recv n s = Some (Inr (take n chunk),
     s\<lparr>incoming := (if length chunk \<le> n then chunks else drop n chunk # chunks)\<rparr>)"
  by (simp add: recv_def)

text \<open>
  With enough bytes on the stream, in non-empty chunks, each loop ends, and what it has
  read followed by what is left on the stream is what was there before.
\<close>

lemma recv_payload_complete:
  assumes "\<forall>c \<in> set (incoming s). c \<noteq> []"
    and "msg_size \<le> length data + length (concat (incoming s))"
  shows "\<exists>data' rest.
           recv_payload msg_size data s = Some (Inr data', s\<lparr>incoming := rest\<rparr>) \<and>
           data' @ concat rest = data @ concat (incoming s) \<and>
           msg_size \<le> length data' \<and>
           (\<forall>c \<in> set rest. c \<noteq> [])"
  using assms
proof (induction "length (concat (incoming s))" arbitrary: data s rule: less_induct)
  case less
  show ?case
  proof (cases "length data < msg_size")
    case False
    then have "recv_payload msg_size data s = Some (Inr data, s\<lparr>incoming := incoming s\<rparr>)"
      by (subst recv_payload.simps) simp
    with False less.prems show ?thesis by force
  next
    case True
    with less.prems(2) obtain chunk chunks where inc: "incoming s = chunk # chunks"
      by (cases "incoming s") auto
    with less.prems(1) have ne: "chunk \<noteq> []" by simp
    let ?s = "s\<lparr>incoming := (if length chunk \<le> 4096 then chunks else drop 4096 chunk # chunks)\<rparr>"
    let ?p = "take 4096 chunk"
    have step: "recv_payload msg_size data s = recv_payload msg_size (data @ ?p) ?s"
      using True by (subst recv_payload.simps) (simp add: recv_chunk [OF inc])
    have same: "?p @ concat (incoming ?s) = concat (incoming s)"
      by (simp add: inc)
    have pne: "?p \<noteq> []" using ne by simp
    have smaller: "length (concat (incoming ?s)) < length (concat (incoming s))"
      using ne by (auto simp: inc)
    have ne': "\<forall>c \<in> set (incoming ?s). c \<noteq> []"
      using less.prems(1) by (auto simp: inc)
    have enough: "msg_size \<le> length (data @ ?p) + length (concat (incoming ?s))"
      using less.prems(2) by (auto simp: inc)
    from less.hyps [OF smaller ne' enough] obtain data' rest where
      r: "recv_payload msg_size (data @ ?p) ?s = Some (Inr data', ?s\<lparr>incoming := rest\<rparr>)"
      and c: "data' @ concat rest = (data @ ?p) @ concat (incoming ?s)"
      and l: "msg_size \<le> length data'"
      and n: "\<forall>c \<in> set rest. c \<noteq> []"
      by blast
    have r': "recv_payload msg_size data s = Some (Inr data', s\<lparr>incoming := rest\<rparr>)"
      using r step by simp
    have c': "data' @ concat rest = data @ concat (incoming s)"
      using c same by simp
    from r' c' l n show ?thesis by blast
  qed
qed

lemma recv_header_complete:
  assumes "\<forall>c \<in> set (incoming s). c \<noteq> []"
    and "payload_size \<le> length data + length (concat (incoming s))"
  shows "\<exists>data' rest.
           recv_header data s = Some (Inr data', s\<lparr>incoming := rest\<rparr>) \<and>
           data' @ concat rest = data @ concat (incoming s) \<and>
           payload_size \<le> length data' \<and>
           (\<forall>c \<in> set rest. c \<noteq> [])"
  using assms
proof (induction "length (concat (incoming s))" arbitrary: data s rule: less_induct)
  case less
  show ?case
  proof (cases "length data < payload_size")
    case False
    then have "recv_header data s = Some (Inr data, s\<lparr>incoming := incoming s\<rparr>)"
      by (subst recv_header.simps) simp
    with False less.prems show ?thesis by force
  next
    case True
    with less.prems(2) obtain chunk chunks where inc: "incoming s = chunk # chunks"
      by (cases "incoming s") auto
    with less.prems(1) have ne: "chunk \<noteq> []" by simp
    let ?s = "s\<lparr>incoming := (if length chunk \<le> 4096 then chunks else drop 4096 chunk # chunks)\<rparr>"
    let ?p = "take 4096 chunk"
    have pne: "?p \<noteq> []" using ne by simp
    have step: "recv_header data s = recv_header (data @ ?p) ?s"
      using True pne by (subst recv_header.simps) (simp add: recv_chunk [OF inc])
    have same: "?p @ concat (incoming ?s) = concat (incoming s)"
      by (simp add: inc)
    have smaller: "length (concat (incoming ?s)) < length (concat (incoming s))"
      using ne by (auto simp: inc)
    have ne': "\<forall>c \<in> set (incoming ?s). c \<noteq> []"
      using less.prems(1) by (auto simp: inc)
    have enough: "payload_size \<le> length (data @ ?p) + length (concat (incoming ?s))"
      using less.prems(2) by (auto simp: inc)
    from less.hyps [OF smaller ne' enough] obtain data' rest where
      r: "recv_header (data @ ?p) ?s = Some (Inr data', ?s\<lparr>incoming := rest\<rparr>)"
      and c: "data' @ concat rest = (data @ ?p) @ concat (incoming ?s)"
      and l: "payload_size \<le> length data'"
      and n: "\<forall>c \<in> set rest. c \<noteq> []"
      by blast
    have r': "recv_header data s = Some (Inr data', s\<lparr>incoming := rest\<rparr>)"
      using r step by simp
    have c': "data' @ concat rest = data @ concat (incoming s)"
      using c same by simp
    from r' c' l n show ?thesis by blast
  qed
qed

text \<open>
  A stream that holds a whole framed message: the header loop and the payload loop
  together take exactly the message off the stream.
\<close>

lemma receive_framed:
  assumes fr: "frame_message payload = Inr message"
    and cat: "concat (incoming s) = message"
    and ne: "\<forall>c \<in> set (incoming s). c \<noteq> []"
  shows "\<exists>data1 rest1.
           recv_header [] s = Some (Inr data1, s\<lparr>incoming := rest1\<rparr>) \<and>
           payload_size \<le> length data1 \<and>
           unpack_Q (take payload_size data1) = Inr (length payload) \<and>
           recv_payload (length payload) (drop payload_size data1) (s\<lparr>incoming := rest1\<rparr>) =
             Some (Inr payload, s\<lparr>incoming := []\<rparr>)"
proof -
  from fr obtain message_size where
    p: "pack_Q (length payload) = Inr message_size" and m: "message = message_size @ payload"
    by (auto simp: frame_message_def split: sum.splits)
  have len: "length message_size = payload_size"
    by (rule pack_length [OF p])
  have "payload_size \<le> length ([] :: byte list) + length (concat (incoming s))"
    by (simp add: cat m len)
  from recv_header_complete [OF ne this] obtain data1 rest1 where
    h: "recv_header [] s = Some (Inr data1, s\<lparr>incoming := rest1\<rparr>)"
    and c1: "data1 @ concat rest1 = message_size @ payload"
    and l1: "payload_size \<le> length data1"
    and n1: "\<forall>c \<in> set rest1. c \<noteq> []"
    by (auto simp: cat m)
  have "take payload_size (data1 @ concat rest1) = take payload_size (message_size @ payload)"
    by (simp only: c1)
  then have t: "take payload_size data1 = message_size"
    using l1 len by simp
  have "drop payload_size (data1 @ concat rest1) = drop payload_size (message_size @ payload)"
    by (simp only: c1)
  then have d: "drop payload_size data1 @ concat rest1 = payload"
    using l1 len by simp
  let ?s1 = "s\<lparr>incoming := rest1\<rparr>"
  have n1': "\<forall>c \<in> set (incoming ?s1). c \<noteq> []"
    using n1 by simp
  have e1: "length payload \<le> length (drop payload_size data1) + length (concat (incoming ?s1))"
    using arg_cong [OF d, of length] by simp
  from recv_payload_complete [OF n1' e1] obtain data2 rest2 where
    r: "recv_payload (length payload) (drop payload_size data1) ?s1 =
          Some (Inr data2, ?s1\<lparr>incoming := rest2\<rparr>)"
    and c2: "data2 @ concat rest2 = drop payload_size data1 @ concat (incoming ?s1)"
    and l2: "length payload \<le> length data2"
    and n2: "\<forall>c \<in> set rest2. c \<noteq> []"
    by blast
  from c2 d have c2': "data2 @ concat rest2 = payload" by simp
  have "length data2 + length (concat rest2) = length payload"
    using arg_cong [OF c2', of length] by simp
  with l2 have "length (concat rest2) = 0" by linarith
  then have "concat rest2 = []" by (simp only: length_0_conv)
  with n2 have "rest2 = []"
    by (cases rest2) auto
  with c2' have "data2 = payload" by simp
  with r \<open>rest2 = []\<close> have
    "recv_payload (length payload) (drop payload_size data1) ?s1 =
       Some (Inr payload, s\<lparr>incoming := []\<rparr>)"
    by simp
  with h l1 t unpack_pack [OF p] show ?thesis by auto
qed

lemma receive_client_framed:
  assumes "frame_message payload = Inr message"
    and "concat (incoming s) = message"
    and "\<forall>c \<in> set (incoming s). c \<noteq> []"
  shows "receive_client s = Some (Inr payload, s\<lparr>incoming := []\<rparr>)"
proof -
  from receive_framed [OF assms] obtain data1 rest1 where
    "recv_header [] s = Some (Inr data1, s\<lparr>incoming := rest1\<rparr>)"
    "unpack_Q (take payload_size data1) = Inr (length payload)"
    "recv_payload (length payload) (drop payload_size data1) (s\<lparr>incoming := rest1\<rparr>) =
       Some (Inr payload, s\<lparr>incoming := []\<rparr>)"
    by blast
  then show ?thesis
    by (simp add: receive_client_def)
qed

lemma receive_server_framed:
  assumes "frame_message payload = Inr message"
    and "concat (incoming s) = message"
    and "\<forall>c \<in> set (incoming s). c \<noteq> []"
  shows "receive_server [] s = Some (Message payload [] (s\<lparr>incoming := []\<rparr>))"
proof -
  from receive_framed [OF assms] obtain data1 rest1 where
    "recv_header [] s = Some (Inr data1, s\<lparr>incoming := rest1\<rparr>)"
    "payload_size \<le> length data1"
    "unpack_Q (take payload_size data1) = Inr (length payload)"
    "recv_payload (length payload) (drop payload_size data1) (s\<lparr>incoming := rest1\<rparr>) =
       Some (Inr payload, s\<lparr>incoming := []\<rparr>)"
    by blast
  then show ?thesis
    by (simp add: receive_server_def)
qed

lemma recv_payload_returns:
  assumes "recv_payload msg_size data s = Some y"
  shows "incoming s \<noteq> [] \<or> at_end s \<noteq> PeerClosed \<or> msg_size \<le> length data"
proof (rule recv_payload.raw_induct
    [where P = "\<lambda>n d c r. incoming c \<noteq> [] \<or> at_end c \<noteq> PeerClosed \<or> n \<le> length d",
      OF _ assms])
  fix loop n d c r
  assume IH: "\<And>n d c r. loop n d c = Some r \<Longrightarrow>
                incoming c \<noteq> [] \<or> at_end c \<noteq> PeerClosed \<or> n \<le> length d"
    and body: "(if length d < n
         then case recv 4096 c of None \<Rightarrow> None
              | Some (Inl e, s') \<Rightarrow> Some (Inl e, s')
              | Some (Inr packet, s') \<Rightarrow> loop n (d @ packet) s'
         else Some (Inr d, c)) = Some r"
  show "incoming c \<noteq> [] \<or> at_end c \<noteq> PeerClosed \<or> n \<le> length d"
  proof (rule ccontr)
    assume "\<not> (incoming c \<noteq> [] \<or> at_end c \<noteq> PeerClosed \<or> n \<le> length d)"
    then have a: "incoming c = []" "at_end c = PeerClosed" "length d < n"
      by auto
    with body have "loop n d c = Some r"
      by (simp add: recv_def)
    from IH [OF this] a show False by simp
  qed
qed

lemma recv_payload_spins:
  "incoming s = [] \<Longrightarrow> at_end s = PeerClosed \<Longrightarrow> length data < msg_size \<Longrightarrow>
   recv_payload msg_size data s = None"
  using recv_payload_returns [of msg_size data s]
  by (cases "recv_payload msg_size data s") auto

text \<open>
  Fewer bytes on the stream than the header declared, and then the peer's close: the
  payload loop uses up the stream and goes on appending \<^verbatim>\<open>b""\<close> for ever.
\<close>

lemma recv_payload_short:
  assumes "at_end s = PeerClosed"
    and "length data + length (concat (incoming s)) < msg_size"
  shows "recv_payload msg_size data s = None"
  using assms
proof (induction "length (concat (incoming s)) + length (incoming s)" arbitrary: data s
    rule: less_induct)
  case less
  from less.prems(2) have short: "length data < msg_size" by simp
  show ?case
  proof (cases "incoming s")
    case Nil
    with less.prems(1) short show ?thesis by (simp add: recv_payload_spins)
  next
    case (Cons chunk chunks)
    let ?s = "s\<lparr>incoming := (if length chunk \<le> 4096 then chunks else drop 4096 chunk # chunks)\<rparr>"
    let ?p = "take 4096 chunk"
    have step: "recv_payload msg_size data s = recv_payload msg_size (data @ ?p) ?s"
      using short by (subst recv_payload.simps) (simp add: recv_chunk [OF Cons])
    have smaller: "length (concat (incoming ?s)) + length (incoming ?s) <
                   length (concat (incoming s)) + length (incoming s)"
      by (auto simp: Cons)
    have e: "at_end ?s = PeerClosed"
      using less.prems(1) by simp
    have l: "length (data @ ?p) + length (concat (incoming ?s)) < msg_size"
      using less.prems(2) by (auto simp: Cons)
    from less.hyps [OF smaller e l] step show ?thesis by simp
  qed
qed

lemma short_stream_header:
  "recv_header [] short_stream =
     Some (Inr (le_bytes 8 5 @ [1, 2]), short_stream\<lparr>incoming := []\<rparr>)"
proof -
  have inc: "incoming short_stream = [le_bytes 8 5 @ [1, 2]]"
    by (simp add: short_stream_def)
  have "recv_header [] short_stream =
        recv_header (le_bytes 8 5 @ [1, 2]) (short_stream\<lparr>incoming := []\<rparr>)"
    by (subst recv_header.simps)
       (simp add: recv_chunk [OF inc] payload_size_def length_le_bytes)
  also have "\<dots> = Some (Inr (le_bytes 8 5 @ [1, 2]), short_stream\<lparr>incoming := []\<rparr>)"
    by (subst recv_header.simps) (simp add: payload_size_def length_le_bytes)
  finally show ?thesis .
qed

lemma short_stream_size:
  "unpack_Q (take payload_size (le_bytes 8 5 @ [1, 2])) = Inr 5"
proof -
  have "pack_Q 5 = Inr (le_bytes 8 5)"
    by (simp add: pack_Q_def)
  from unpack_pack [OF this] show ?thesis
    by (simp add: payload_size_def length_le_bytes)
qed

lemma short_stream_long: "\<not> length (le_bytes 8 5 @ [1, 2 :: byte]) < payload_size"
  by (simp add: payload_size_def length_le_bytes)

lemma short_stream_payload:
  "recv_payload 5 (drop payload_size (le_bytes 8 5 @ [1, 2])) (short_stream\<lparr>incoming := []\<rparr>) =
     None"
  by (rule recv_payload_short)
     (simp_all add: short_stream_def payload_size_def length_le_bytes)

lemma session_trace:
  assumes "session process data s trace = Some r"
  shows "\<exists>evs. fst r = trace @ evs \<and> exchanges evs"
proof (rule session.raw_induct
    [where P = "\<lambda>process data s trace r. \<exists>evs. fst r = trace @ evs \<and> exchanges evs",
      OF _ assms])
  fix loop process data s trace r
  assume IH: "\<And>process data s trace r. loop process data s trace = Some r \<Longrightarrow>
                \<exists>evs. fst r = trace @ evs \<and> exchanges evs"
    and body: "(case receive_server data s of
        None \<Rightarrow> None
      | Some (Raised e s1) \<Rightarrow> Some (trace @ [Failure e], s1)
      | Some (EndOfStream s1) \<Rightarrow> Some (trace, s1)
      | Some (Message frame_data data s1) \<Rightarrow>
          (case process frame_data of
             Inl e \<Rightarrow> Some (trace @ [Request frame_data, Failure e], s1)
           | Inr result_data \<Rightarrow>
               (case frame_message result_data of
                  Inl e \<Rightarrow> Some (trace @ [Request frame_data, Failure e], s1)
                | Inr message \<Rightarrow>
                    (case sendall message s1 of
                       Inl e \<Rightarrow> Some (trace @ [Request frame_data, Failure e], s1)
                     | Inr s2 \<Rightarrow>
                         loop process data s2
                           (trace @ [Request frame_data, Response result_data]))))) = Some r"
  from body obtain rc where rc: "receive_server data s = Some rc"
    by (cases "receive_server data s") auto
  show "\<exists>evs. fst r = trace @ evs \<and> exchanges evs"
  proof (cases rc)
    case (Raised e s1)
    with body rc have "fst r = trace @ [Failure e]" by auto
    then show ?thesis by (intro exI [of _ "[Failure e]"]) simp
  next
    case (EndOfStream s1)
    with body rc have "fst r = trace @ []" by auto
    then show ?thesis by (intro exI [of _ "[]"]) simp
  next
    case (Message frame_data data' s1)
    note m = Message
    show ?thesis
    proof (cases "process frame_data")
      case (Inl e)
      with body rc m have "fst r = trace @ [Request frame_data, Failure e]" by auto
      then show ?thesis by (intro exI [of _ "[Request frame_data, Failure e]"]) simp
    next
      case (Inr result_data)
      note p = Inr
      show ?thesis
      proof (cases "frame_message result_data")
        case (Inl e)
        with body rc m p have "fst r = trace @ [Request frame_data, Failure e]" by auto
        then show ?thesis by (intro exI [of _ "[Request frame_data, Failure e]"]) simp
      next
        case (Inr message)
        note f = Inr
        show ?thesis
        proof (cases "sendall message s1")
          case (Inl e)
          with body rc m p f have "fst r = trace @ [Request frame_data, Failure e]" by auto
          then show ?thesis by (intro exI [of _ "[Request frame_data, Failure e]"]) simp
        next
          case (Inr s2)
          with body rc m p f have
            "loop process data' s2 (trace @ [Request frame_data, Response result_data]) = Some r"
            by auto
          from IH [OF this] obtain evs where
            "fst r = (trace @ [Request frame_data, Response result_data]) @ evs" "exchanges evs"
            by blast
          then show ?thesis
            by (intro exI [of _ "Request frame_data # Response result_data # evs"]) simp
        qed
      qed
    qed
  qed
qed

lemma after_failure_exchanges:
  "exchanges evs \<Longrightarrow> after_failure rest \<Longrightarrow> rest = [] \<or> hd rest = Accept \<Longrightarrow>
   after_failure (evs @ Close # rest)"
proof (induction evs rule: exchanges.induct)
  case (2 e)
  then show ?case by (cases rest) auto
next
  case (3 frame_data e)
  then show ?case by (cases rest) auto
qed simp_all

lemma serve_trace:
  "serve process clients = Some (trace, socks) \<Longrightarrow>
   after_failure trace \<and> (trace = [] \<or> hd trace = Accept) \<and>
   (\<forall>s \<in> set socks. closed s) \<and> length socks = length clients"
proof (induction clients arbitrary: trace socks)
  case Nil
  then show ?case by simp
next
  case (Cons client_socket clients)
  from Cons.prems obtain tr s traces socks' where
    se: "session process [] client_socket [Accept] = Some (tr, s)"
    and re: "serve process clients = Some (traces, socks')"
    and t: "trace = tr @ [Close] @ traces" and so: "socks = close s # socks'"
    by (auto split: option.splits)
  from session_trace [OF se] obtain evs where
    tr: "tr = [Accept] @ evs" and ex: "exchanges evs"
    by auto
  from Cons.IH [OF re] have
    af: "after_failure traces" and hd: "traces = [] \<or> hd traces = Accept"
    and cl: "\<forall>s \<in> set socks'. closed s" and len: "length socks' = length clients"
    by blast+
  have "after_failure (Accept # evs @ Close # traces)"
    using after_failure_exchanges [OF ex af hd] by simp
  with t tr so cl len show ?case
    by (simp add: close_def)
qed

lemma after_failure_nth:
  "after_failure trace \<Longrightarrow> i < length trace \<Longrightarrow> trace ! i = Failure e \<Longrightarrow>
   Suc i < length trace \<and> trace ! Suc i = Close \<and>
   (Suc (Suc i) < length trace \<longrightarrow> trace ! Suc (Suc i) = Accept)"
proof (induction trace arbitrary: i rule: after_failure.induct)
  case 1
  then show ?case by simp
next
  case (2 e' rest)
  show ?case
  proof (cases i)
    case 0
    from "2.prems"(1) have "rest = [Close] \<or> take 2 rest = [Close, Accept]" by simp
    then show ?thesis
    proof
      assume "rest = [Close]"
      with 0 show ?thesis by simp
    next
      assume "take 2 rest = [Close, Accept]"
      then obtain rest' where "rest = Close # Accept # rest'"
        by (cases rest; cases "tl rest") (auto simp: numeral_2_eq_2)
      with 0 show ?thesis by simp
    qed
  next
    case (Suc j)
    with "2.prems" "2.IH" [of j] show ?thesis by simp
  qed
qed (auto simp: nth_Cons split: nat.splits)

lemma failing_client_receive:
  "receive_server [] failing_client = Some (Message [42] [] (failing_client\<lparr>incoming := []\<rparr>))"
proof (rule receive_server_framed)
  show "frame_message [42] = Inr (le_bytes 8 1 @ [42])"
    by (simp add: frame_message_def pack_Q_def)
  show "concat (incoming failing_client) = le_bytes 8 1 @ [42]"
    by (simp add: failing_client_def)
  have "le_bytes 8 1 \<noteq> []"
    using length_le_bytes [of 8 1] by auto
  then show "\<forall>c \<in> set (incoming failing_client). c \<noteq> []"
    by (simp add: failing_client_def)
qed

lemma failing_client_session:
  "session broken_detector [] failing_client [Accept] =
     Some ([Accept, Request [42], Failure ProcessError], failing_client\<lparr>incoming := []\<rparr>)"
  by (subst session.simps) (simp add: failing_client_receive broken_detector_def)

lemma reset_client_session:
  "session process [] reset_client [Accept] =
     Some ([Accept, Failure ConnectionResetError], reset_client)"
proof -
  have "recv_header [] reset_client = Some (Inl ConnectionResetError, reset_client)"
    by (subst recv_header.simps) (simp add: recv_def reset_client_def payload_size_def)
  then have "receive_server [] reset_client = Some (Raised ConnectionResetError reset_client)"
    by (simp add: receive_server_def)
  then show ?thesis
    by (subst session.simps) simp
qed

lemma leaving_client_session:
  "session process [] leaving_client [Accept] = Some ([Accept], leaving_client)"
proof -
  have "recv_header [] leaving_client = Some (Inr [], leaving_client)"
    by (subst recv_header.simps) (simp add: recv_def leaving_client_def payload_size_def)
  then have "receive_server [] leaving_client = Some (EndOfStream leaving_client)"
    by (simp add: receive_server_def payload_size_def)
  then show ?thesis
    by (subst session.simps) simp
qed

lemma three_clients_served:
  "serve broken_detector [failing_client, reset_client, leaving_client] =
     Some ([Accept, Request [42], Failure ProcessError, Close,
            Accept, Failure ConnectionResetError, Close,
            Accept, Close],
           [close (failing_client\<lparr>incoming := []\<rparr>), close reset_client, close leaving_client])"
  by (simp add: failing_client_session reset_client_session leaving_client_session)

text \<open>
  C8: the state of a frame is NOTHING when it has neither utensils nor hands,
  UNATTENDED with utensils and no hands, ATTENDED with both, and NOTHING with hands
  and no utensils.
\<close>

theorem determine_state_cases:
  "determine_state rs =
     (if utensils rs = [] \<and> hands rs = [] then NOTHING
      else if utensils rs \<noteq> [] \<and> hands rs = [] then UNATTENDED
      else if utensils rs \<noteq> [] \<and> hands rs \<noteq> [] then ATTENDED
      else NOTHING)"
  by (simp add: determine_state_def hand_count_def utensil_count_empty)




text \<open>
  C4: an item type continuously unattended from a first frame at time t0 gets no alert at
  any frame before the threshold is reached, and exactly one at the first frame at which
  the elapsed time reaches UNATTENDED_THRESHOLD. The elapsed time is the programs'
  \<^verbatim>\<open>current_time - utensil_first_seen[utensil_type]\<close>, a double-precision difference;
  for a first frame at time 0 it is the clock reading itself.
\<close>

theorem first_alert_at_threshold:
  assumes "map_of (utensil_first_seen tr) k = None"
    and "map_of (last_alert_time tr) k = None"
    and "determine_state r0 = UNATTENDED" and "k \<in> class_name ` set (utensils r0)"
    and "\<forall>tick \<in> set pre.
           determine_state (snd tick) = UNATTENDED \<and>
           k \<in> class_name ` set (utensils (snd tick)) \<and>
           time_diff (fst tick) t0 < UNATTENDED_THRESHOLD"
    and "determine_state r = UNATTENDED" and "k \<in> class_name ` set (utensils r)"
    and "UNATTENDED_THRESHOLD \<le> time_diff t t0"
  shows "filter (\<lambda>e. snd e = k) (fst (run tr ((t0, r0) # pre @ [(t, r)]))) = [(t, k)]"
proof -
  let ?step = "track_tick t0 r0 tr"
  have quiet: "filter (\<lambda>e. snd e = k) (map (Pair t0) (snd ?step)) = []"
    using assms(1) by (simp add: track_tick_alerts_of_type should_alert_def)
  have fs: "map_of (utensil_first_seen (fst ?step)) k = Some t0"
    using assms(1,3,4) by (simp add: track_tick_first_seen)
  have "k \<notin> set (snd ?step)"
    using assms(1) by (simp add: track_tick_alert_iff should_alert_def)
  then have la: "map_of (last_alert_time (fst ?step)) k = None"
    using assms(2) by (simp add: track_tick_last_alert)
  have pre: "\<forall>tick \<in> set pre.
           determine_state (snd tick) = UNATTENDED \<and>
           k \<in> class_name ` set (utensils (snd tick)) \<and>
           \<not> (UNATTENDED_THRESHOLD \<le> time_diff (fst tick) t0 \<and>
              (case None of None \<Rightarrow> True
               | Some last_alert \<Rightarrow> ALERT_COOLDOWN \<le> time_diff (fst tick) last_alert))"
    using assms(5) by auto
  have "filter (\<lambda>e. snd e = k) (fst (run (fst ?step) (pre @ [(t, r)]))) = [(t, k)]"
    by (rule run_quiet_then_alert [OF fs la pre assms(6) assms(7) assms(8)]) simp
  with quiet show ?thesis
    by (simp add: Let_def)
qed

theorem first_alert_at_threshold_witness:
  "filter (\<lambda>e. snd e = ''fork'')
     (fst (run initial_tracker [(0, fork_alone), (19 / 10, fork_alone), (2, fork_alone)])) =
   [(2, ''fork'')]"
  using first_alert_at_threshold [of initial_tracker "''fork''" fork_alone
      "[(19 / 10, fork_alone)]" 0 fork_alone 2]
  by (simp add: initial_tracker_def fork_alone_state fork_alone_names UNATTENDED_THRESHOLD_def
      time_diff_def round_double_19_10 not_le [symmetric] del: run.simps)

text \<open>
  C6: a frame that is not UNATTENDED, or that does not show the type, deletes the type's
  first-seen entry; the next UNATTENDED frame that shows the type stores its own time, and
  while the type stays unattended the threshold of every later frame is measured from
  that time, by the programs' double-precision difference.
\<close>

theorem reset_on_attendance:
  assumes "determine_state r1 \<noteq> UNATTENDED \<or> k \<notin> class_name ` set (utensils r1)"
    and "determine_state r2 = UNATTENDED" and "k \<in> class_name ` set (utensils r2)"
    and "\<forall>tick \<in> set ticks.
           determine_state (snd tick) = UNATTENDED \<and> k \<in> class_name ` set (utensils (snd tick))"
    and "determine_state r3 = UNATTENDED" and "k \<in> class_name ` set (utensils r3)"
    and "tr1 = fst (track_tick t1 r1 tr)"
    and "tr2 = fst (track_tick t2 r2 tr1)"
    and "tr3 = snd (run tr2 ticks)"
  shows "map_of (utensil_first_seen tr1) k = None \<and>
         map_of (utensil_first_seen tr2) k = Some t2 \<and>
         k \<notin> set (snd (track_tick t2 r2 tr1)) \<and>
         map_of (utensil_first_seen tr3) k = Some t2 \<and>
         (k \<in> set (snd (track_tick t3 r3 tr3)) \<longleftrightarrow>
            UNATTENDED_THRESHOLD \<le> time_diff t3 t2 \<and>
            (case map_of (last_alert_time tr3) k of
               None \<Rightarrow> True
             | Some last_alert \<Rightarrow> ALERT_COOLDOWN \<le> time_diff t3 last_alert))"
proof -
  have d: "map_of (utensil_first_seen tr1) k = None"
    using assms(1) unfolding assms(7) by (auto simp: track_tick_first_seen)
  have f2: "map_of (utensil_first_seen tr2) k = Some t2"
    using assms(2,3) d unfolding assms(8) by (simp add: track_tick_first_seen)
  have q: "k \<notin> set (snd (track_tick t2 r2 tr1))"
    using d by (simp add: track_tick_alert_iff should_alert_def)
  have f3: "map_of (utensil_first_seen tr3) k = Some t2"
    unfolding assms(9) by (rule run_unattended_keeps_first_seen [OF f2 assms(4)])
  have a: "k \<in> set (snd (track_tick t3 r3 tr3)) \<longleftrightarrow>
            UNATTENDED_THRESHOLD \<le> time_diff t3 t2 \<and>
            (case map_of (last_alert_time tr3) k of
               None \<Rightarrow> True
             | Some last_alert \<Rightarrow> ALERT_COOLDOWN \<le> time_diff t3 last_alert)"
    using assms(5,6) f3 by (simp add: track_tick_alert_iff should_alert_def)
  from d f2 q f3 a show ?thesis by blast
qed

theorem reset_on_attendance_witness:
  "map_of (utensil_first_seen
      (fst (track_tick (21 / 10) fork_with_person
         \<lparr>utensil_first_seen = [(''fork'', 0)], last_alert_time = []\<rparr>))) ''fork'' = None \<and>
   map_of (utensil_first_seen
      (fst (track_tick (11 / 5) fork_alone
        (fst (track_tick (21 / 10) fork_with_person
           \<lparr>utensil_first_seen = [(''fork'', 0)], last_alert_time = []\<rparr>))))) ''fork'' =
     Some (11 / 5)"
proof -
  let ?tr = "\<lparr>utensil_first_seen = [(''fork'', 0)], last_alert_time = []\<rparr>"
  have 1: "determine_state fork_with_person \<noteq> UNATTENDED \<or>
           ''fork'' \<notin> class_name ` set (utensils fork_with_person)"
    by (simp add: fork_with_person_state)
  have 4: "\<forall>tick \<in> set ([] :: (real \<times> results) list).
           determine_state (snd tick) = UNATTENDED \<and>
           ''fork'' \<in> class_name ` set (utensils (snd tick))"
    by simp
  have n: "''fork'' \<in> class_name ` set (utensils fork_alone)"
    by (simp add: fork_alone_names)
  from reset_on_attendance [OF 1 fork_alone_state n 4 fork_alone_state n refl refl refl,
      of "21 / 10" ?tr "11 / 5" 5]
  show ?thesis by blast
qed

text \<open>
  C9: after a frame has been tracked, the first-seen dictionary has one entry per key,
  all its keys are utensil types of that frame, and it is empty unless the frame was
  UNATTENDED.
\<close>

theorem tracked_entries_invariant:
  assumes "distinct (map fst (utensil_first_seen tr))"
    and "tr' = fst (track_tick now rs tr)"
  shows "distinct (map fst (utensil_first_seen tr')) \<and>
         set (map fst (utensil_first_seen tr')) \<subseteq> class_name ` set (utensils rs) \<and>
         (determine_state rs \<noteq> UNATTENDED \<longrightarrow> utensil_first_seen tr' = [])"
proof -
  have 1: "distinct (map fst (utensil_first_seen tr'))"
    unfolding assms(2) track_tick_def Let_def fst_conv
    by (intro fold_remove_distinct fold_track_distinct) (simp add: assms(1))
  have 2: "set (map fst (utensil_first_seen tr')) \<subseteq> class_name ` set (utensils rs)"
  proof
    fix x assume "x \<in> set (map fst (utensil_first_seen tr'))"
    then have "map_of (utensil_first_seen tr') x \<noteq> None"
      using key_in_dict [of x "utensil_first_seen tr'"] by blast
    then show "x \<in> class_name ` set (utensils rs)"
      unfolding assms(2) by (simp add: track_tick_first_seen split: if_splits)
  qed
  have 3: "utensil_first_seen tr' = []" if "determine_state rs \<noteq> UNATTENDED"
  proof -
    have "map_of (utensil_first_seen tr') = Map.empty"
      unfolding assms(2) using that by (simp add: fun_eq_iff track_tick_first_seen)
    then show ?thesis by simp
  qed
  from 1 2 3 show ?thesis by simp
qed

theorem tracked_entries_invariant_witness:
  "distinct (map fst [(''fork'', 0::real)]) \<and>
   utensil_first_seen (fst (track_tick (21 / 10) fork_with_person
      \<lparr>utensil_first_seen = [(''fork'', 0)], last_alert_time = [(''fork'', 2)]\<rparr>)) = []"
  using tracked_entries_invariant [of
      "\<lparr>utensil_first_seen = [(''fork'', 0)], last_alert_time = [(''fork'', 2)]\<rparr>" _
      "21 / 10" fork_with_person, OF _ refl]
  by (simp add: fork_with_person_state)




text \<open>
  C1 as stated fails: after the fork scenario the last-alert time of the fork is still
  2.0, and the frame at 4.2 gives no alert.
\<close>

theorem scenario_alert_at_4_2_counterexample:
  "map_of (last_alert_time (snd (run initial_tracker scenario_ticks))) ''fork'' = Some 2 \<and>
   (21 / 5, ''fork'') \<notin> set (fst (run initial_tracker (scenario_ticks @ [(21 / 5, fork_alone)])))"
  by (simp only: scenario_run scenario_run_4_2 fst_conv snd_conv) simp

text \<open>
  C1 amended: the frame at 2.2 stores a fresh first-seen time 2.2 for the fork, the
  last-alert time 2.0 stays, and while the fork stays unattended the next alert for it
  comes at the first frame whose time is at least 7.0. The clock readings are doubles.
\<close>

theorem scenario_next_alert:
  assumes "\<forall>tick \<in> set pre.
           determine_state (snd tick) = UNATTENDED \<and>
           ''fork'' \<in> class_name ` set (utensils (snd tick)) \<and>
           is_double (fst tick) \<and> fst tick < 7"
    and "determine_state r = UNATTENDED" and "''fork'' \<in> class_name ` set (utensils r)"
    and "7 \<le> t"
  shows "map_of (utensil_first_seen (snd (run initial_tracker scenario_ticks))) ''fork'' =
           Some (11 / 5) \<and>
         map_of (last_alert_time (snd (run initial_tracker scenario_ticks))) ''fork'' = Some 2 \<and>
         filter (\<lambda>e. snd e = ''fork'')
           (fst (run initial_tracker (scenario_ticks @ pre @ [(t, r)]))) =
           [(2, ''fork''), (t, ''fork'')]"
proof -
  let ?tr = "snd (run initial_tracker scenario_ticks)"
  have fs: "map_of (utensil_first_seen ?tr) ''fork'' = Some (11 / 5)"
    by (simp only: scenario_run snd_conv) simp
  have la: "map_of (last_alert_time ?tr) ''fork'' = Some 2"
    by (simp only: scenario_run snd_conv) simp
  have pre: "\<forall>tick \<in> set pre.
           determine_state (snd tick) = UNATTENDED \<and>
           ''fork'' \<in> class_name ` set (utensils (snd tick)) \<and>
           \<not> (UNATTENDED_THRESHOLD \<le> time_diff (fst tick) (11 / 5) \<and>
              (case Some 2 of None \<Rightarrow> True
               | Some last_alert \<Rightarrow> ALERT_COOLDOWN \<le> time_diff (fst tick) last_alert))"
    using assms(1) double_below_7 by (fastforce simp: ALERT_COOLDOWN_def time_diff_def)
  have "round_double 4 \<le> round_double (t - 11 / 5)"
    using assms(4) by (intro round_double_mono) simp
  then have th: "UNATTENDED_THRESHOLD \<le> time_diff t (11 / 5)"
    by (simp add: UNATTENDED_THRESHOLD_def time_diff_def)
  have "round_double 5 \<le> round_double (t - 2)"
    using assms(4) by (intro round_double_mono) simp
  then have cd: "case Some 2 of None \<Rightarrow> True
                 | Some last_alert \<Rightarrow> ALERT_COOLDOWN \<le> time_diff t last_alert"
    by (simp add: ALERT_COOLDOWN_def time_diff_def)
  have "filter (\<lambda>e. snd e = ''fork'') (fst (run ?tr (pre @ [(t, r)]))) = [(t, ''fork'')]"
    by (rule run_quiet_then_alert [OF fs la pre assms(2) assms(3) th cd])
  moreover have "fst (run initial_tracker scenario_ticks) = [(2, ''fork'')]"
    by (simp only: scenario_run fst_conv)
  ultimately have "filter (\<lambda>e. snd e = ''fork'')
           (fst (run initial_tracker (scenario_ticks @ pre @ [(t, r)]))) =
           [(2, ''fork''), (t, ''fork'')]"
    by (simp add: run_append [of initial_tracker scenario_ticks])
  with fs la show ?thesis by blast
qed

theorem scenario_next_alert_witness:
  "filter (\<lambda>e. snd e = ''fork'')
     (fst (run initial_tracker (scenario_ticks @ [(17 / 4, fork_alone)] @ [(7, fork_alone)]))) =
   [(2, ''fork''), (7, ''fork'')]"
proof -
  have 1: "\<forall>tick \<in> set [(17 / 4 :: real, fork_alone)].
           determine_state (snd tick) = UNATTENDED \<and>
           ''fork'' \<in> class_name ` set (utensils (snd tick)) \<and>
           is_double (fst tick) \<and> fst tick < 7"
    by (simp add: fork_alone_state fork_alone_names is_double_def round_double_17_4)
  have n: "''fork'' \<in> class_name ` set (utensils fork_alone)"
    by (simp add: fork_alone_names)
  have t: "(7::real) \<le> 7" by simp
  from scenario_next_alert [OF 1 fork_alone_state n t] show ?thesis by blast
qed

text \<open>
  C3: a framed message that arrives in non-empty chunks of any sizes is reassembled to
  exactly the payload that was framed, by the client's receive and by the server's.
\<close>

theorem frame_round_trip:
  assumes "frame_message payload = Inr message"
    and "concat chunks = message"
    and "\<forall>c \<in> set chunks. c \<noteq> []"
    and "incoming s = chunks"
  shows "receive_client s = Some (Inr payload, s\<lparr>incoming := []\<rparr>) \<and>
         receive_server [] s = Some (Message payload [] (s\<lparr>incoming := []\<rparr>))"
  using assms receive_client_framed [of payload message s]
    receive_server_framed [of payload message s]
  by simp

theorem frame_round_trip_witness:
  "frame_message (replicate 1000000 0) = Inr (concat (incoming big_stream)) \<and>
   receive_client big_stream =
     Some (Inr (replicate 1000000 0), big_stream\<lparr>incoming := []\<rparr>) \<and>
   receive_server [] big_stream =
     Some (Message (replicate 1000000 0) [] (big_stream\<lparr>incoming := []\<rparr>))"
proof -
  have inc: "incoming big_stream = [le_bytes 8 1000000, replicate 1000000 0]"
    by (simp add: big_stream_def)
  have fr: "frame_message (replicate 1000000 0) = Inr (le_bytes 8 1000000 @ replicate 1000000 0)"
    by (simp add: frame_message_def pack_Q_def)
  have cat: "concat [le_bytes 8 1000000, replicate 1000000 (0::byte)] =
             le_bytes 8 1000000 @ replicate 1000000 0"
    by simp
  have "le_bytes 8 1000000 \<noteq> []"
    using length_le_bytes [of 8 1000000] by auto
  then have ne: "\<forall>c \<in> set [le_bytes 8 1000000, replicate 1000000 (0::byte)]. c \<noteq> []"
    by simp
  from frame_round_trip [OF fr cat ne inc] fr show ?thesis
    by (simp only: inc cat)
qed

text \<open>
  C2 at the failing input: the peer sends a header that declares 5 bytes, then 2 bytes,
  and closes. Neither receive returns, and the server never comes back to \<^verbatim>\<open>accept\<close>.
\<close>

theorem short_payload_never_returns:
  "receive_client short_stream = None \<and>
   receive_server [] short_stream = None \<and>
   serve process [short_stream] = None"
proof -
  have c: "receive_client short_stream = None"
    unfolding receive_client_def short_stream_header
    by (simp only: option.case prod.case sum.case Let_def short_stream_size
        short_stream_payload)
  have s: "receive_server [] short_stream = None"
    unfolding receive_server_def short_stream_header
    by (simp only: option.case prod.case sum.case Let_def short_stream_size
        short_stream_payload short_stream_long if_False)
  have "session process [] short_stream [Accept] = None"
    by (subst session.simps) (simp add: s)
  then have "serve process [short_stream] = None"
    by simp
  with c s show ?thesis by simp
qed

text \<open>
  Exceptions inside a session. An exception raised by the receive, by the detector or by
  the send ends the session at once, with the exception as the last entry of its log.
\<close>

lemma session_receive_raises:
  "receive_server data s = Some (Raised e s1) \<Longrightarrow>
   session process data s trace = Some (trace @ [Failure e], s1)"
  by (subst session.simps) simp

lemma session_process_raises:
  "receive_server data s = Some (Message frame_data data' s1) \<Longrightarrow>
   process frame_data = Inl e \<Longrightarrow>
   session process data s trace = Some (trace @ [Request frame_data, Failure e], s1)"
  by (subst session.simps) simp

lemma session_send_raises:
  "receive_server data s = Some (Message frame_data data' s1) \<Longrightarrow>
   process frame_data = Inr result_data \<Longrightarrow> frame_message result_data = Inr message \<Longrightarrow>
   sendall message s1 = Inl e \<Longrightarrow>
   session process data s trace = Some (trace @ [Request frame_data, Failure e], s1)"
  by (subst session.simps) simp

text \<open>
  In the log of a server that got through its connections, an exception is followed at
  once by the close of the client socket, and after that by nothing but the next accept;
  every client socket is closed.
\<close>

lemma exception_ends_session:
  assumes "serve process clients = Some (trace, socks)"
    and "i < length trace" and "trace ! i = Failure e"
  shows "Suc i < length trace \<and> trace ! Suc i = Close \<and>
         (Suc (Suc i) < length trace \<longrightarrow> trace ! Suc (Suc i) = Accept) \<and>
         (\<forall>s \<in> set socks. closed s) \<and> length socks = length clients"
proof -
  from serve_trace [OF assms(1)] have af: "after_failure trace"
    and rest: "(\<forall>s \<in> set socks. closed s) \<and> length socks = length clients"
    by blast+
  from after_failure_nth [OF af assms(2) assms(3)] rest show ?thesis by blast
qed

lemma short_stream_receive_server: "receive_server [] short_stream = None"
  unfolding receive_server_def short_stream_header
  by (simp only: option.case prod.case sum.case Let_def short_stream_size
      short_stream_payload short_stream_long if_False)

lemma short_stream_session: "session process [] short_stream trace = None"
  by (subst session.simps) (simp add: short_stream_receive_server)

text \<open>
  C10 at the failing input: a first client whose frame makes the detector raise, then a
  client that closes in the middle of a payload, then a client that just wants to
  connect. The exception of the first session ends it. The second session never ends,
  though the peer has closed: the server does not close that socket and never accepts
  the third client.
\<close>

theorem mid_payload_close_blocks_server:
  "session broken_detector [] failing_client [Accept] =
     Some ([Accept, Request [42], Failure ProcessError], failing_client\<lparr>incoming := []\<rparr>) \<and>
   session broken_detector [] short_stream [Accept] = None \<and>
   serve broken_detector [failing_client, short_stream, leaving_client] = None"
  by (simp add: failing_client_session short_stream_session)

end
